theory Spec2Isabelle
  imports Complex_Main "HOL-Library.Log_Nat"
begin

section \<open>Layout items\<close>

text \<open>
  A layout item of \<^verbatim>\<open>src/lib/utils.js\<close>.  The fields are those copied by
  \<^verbatim>\<open>cloneLayoutItem\<close>.  Grid coordinates and sizes are integers; the
  source fields \<^verbatim>\<open>w h x y i\<close> carry the prefix \<open>l_\<close> here.  The flags
  \<^verbatim>\<open>moved\<close> and \<^verbatim>\<open>static\<close> are read by truthiness only, so an
  absent flag is \<open>False\<close>.
\<close>

record layoutItem =
  l_w :: int
  l_h :: int
  l_x :: int
  l_y :: int
  l_i :: string
  minW :: "int option"
  maxW :: "int option"
  minH :: "int option"
  maxH :: "int option"
  moved :: bool
  static :: bool
  isDraggable :: "bool option"
  isResizable :: "bool option"
  resizeHandles :: "string list option"
  isBounded :: "bool option"

text \<open>The compaction mode: \<^verbatim>\<open>"vertical"\<close>, \<^verbatim>\<open>"horizontal"\<close> or \<^verbatim>\<open>null\<close>.\<close>

datatype compactType = Vertical | Horizontal | NoCompaction

definition cloneLayoutItem :: "layoutItem \<Rightarrow> layoutItem" where
  "cloneLayoutItem layoutItem =
     \<lparr> l_w = l_w layoutItem, l_h = l_h layoutItem, l_x = l_x layoutItem,
       l_y = l_y layoutItem, l_i = l_i layoutItem,
       minW = minW layoutItem, maxW = maxW layoutItem,
       minH = minH layoutItem, maxH = maxH layoutItem,
       moved = moved layoutItem, static = static layoutItem,
       isDraggable = isDraggable layoutItem, isResizable = isResizable layoutItem,
       resizeHandles = resizeHandles layoutItem, isBounded = isBounded layoutItem \<rparr>"

text \<open>
  An item given by its id, position, size and static flag, every other field absent.
  It is used to write down concrete layouts.
\<close>

definition mkItem :: "string \<Rightarrow> int \<Rightarrow> int \<Rightarrow> int \<Rightarrow> int \<Rightarrow> bool \<Rightarrow> layoutItem" where
  "mkItem i x y w h st =
     \<lparr> l_w = w, l_h = h, l_x = x, l_y = y, l_i = i,
       minW = None, maxW = None, minH = None, maxH = None,
       moved = False, static = st,
       isDraggable = None, isResizable = None, resizeHandles = None, isBounded = None \<rparr>"

definition bottom :: "layoutItem list \<Rightarrow> int" where
  "bottom layout =
     foldl (\<lambda>mx l. if l_y l + l_h l > mx then l_y l + l_h l else mx) 0 layout"

definition collides :: "layoutItem \<Rightarrow> layoutItem \<Rightarrow> bool" where
  "collides l1 l2 =
     (if l_i l1 = l_i l2 then False
      else if l_x l1 + l_w l1 \<le> l_x l2 then False
      else if l_x l1 \<ge> l_x l2 + l_w l2 then False
      else if l_y l1 + l_h l1 \<le> l_y l2 then False
      else if l_y l1 \<ge> l_y l2 + l_h l2 then False
      else True)"

definition getFirstCollision :: "layoutItem list \<Rightarrow> layoutItem \<Rightarrow> layoutItem option" where
  "getFirstCollision layout layoutItem = find (\<lambda>c. collides c layoutItem) layout"

definition getAllCollisions :: "layoutItem list \<Rightarrow> layoutItem \<Rightarrow> layoutItem list" where
  "getAllCollisions layout layoutItem = filter (\<lambda>c. collides c layoutItem) layout"

definition getStatics :: "layoutItem list \<Rightarrow> layoutItem list" where
  "getStatics layout = filter static layout"

section \<open>Ordering\<close>

text \<open>
  The two comparators handed to \<^verbatim>\<open>Array.prototype.sort\<close> by
  \<^verbatim>\<open>sortLayoutItemsByRowCol\<close> and \<^verbatim>\<open>sortLayoutItemsByColRow\<close>.
\<close>

definition compareRowCol :: "layoutItem \<Rightarrow> layoutItem \<Rightarrow> int" where
  "compareRowCol a b =
     (if l_y a > l_y b \<or> (l_y a = l_y b \<and> l_x a > l_x b) then 1
      else if l_y a = l_y b \<and> l_x a = l_x b then 0
      else -1)"

definition compareColRow :: "layoutItem \<Rightarrow> layoutItem \<Rightarrow> int" where
  "compareColRow a b =
     (if l_x a > l_x b \<or> (l_x a = l_x b \<and> l_y a > l_y b) then 1
      else -1)"

text \<open>
  \<^verbatim>\<open>Array.prototype.sort\<close> with a consistent comparator is stable: it is
  modelled as an insertion sort that moves an element behind another one only when the
  comparator answers with a positive number.
\<close>

fun insort_cmp :: "('a \<Rightarrow> 'a \<Rightarrow> int) \<Rightarrow> 'a \<Rightarrow> 'a list \<Rightarrow> 'a list" where
  "insort_cmp cmp a [] = [a]"
| "insort_cmp cmp a (b # bs) =
     (if cmp a b > 0 then b # insort_cmp cmp a bs else a # b # bs)"

definition sort_cmp :: "('a \<Rightarrow> 'a \<Rightarrow> int) \<Rightarrow> 'a list \<Rightarrow> 'a list" where
  "sort_cmp cmp xs = foldr (insort_cmp cmp) xs []"

text \<open>
  Arrays hold references.  A layout array is a list of addresses into a store of items
  (\<open>store ! a\<close> is the object at address \<open>a\<close>); sorting copies the array
  (\<^verbatim>\<open>slice(0)\<close>) and never the objects.
\<close>

definition sortLayoutItemsByRowCol :: "layoutItem list \<Rightarrow> nat list \<Rightarrow> nat list" where
  "sortLayoutItemsByRowCol store layout =
     sort_cmp (\<lambda>a b. compareRowCol (store ! a) (store ! b)) layout"

text \<open>
  The comparator of \<^verbatim>\<open>sortLayoutItemsByColRow\<close> answers \<open>-1\<close> both ways for
  two items at one position, so it is not a consistent comparator and the order in which
  \<^verbatim>\<open>Array.prototype.sort\<close> leaves such items is implementation-defined (one
  engine returns them reversed, another in input order).  The sorted array is ordered by
  \<open>(x, y)\<close> in every engine; what an engine does with items at one position is a
  parameter of the model: \<open>tie store layout\<close> ranks the addresses of the array, and
  items at one position come out by increasing rank (in input order when their ranks are
  equal).  Every theorem below holds for every \<open>tie\<close>, and every array that is a
  permutation of the input ordered by \<open>(x, y)\<close> is the result for some \<open>tie\<close>
  (\<open>sortLayoutItemsByColRow_any_order\<close>).
\<close>

type_synonym tieOrder = "layoutItem list \<Rightarrow> nat list \<Rightarrow> nat \<Rightarrow> nat"

definition compareColRowTie :: "(nat \<Rightarrow> nat) \<Rightarrow> layoutItem list \<Rightarrow> nat \<Rightarrow> nat \<Rightarrow> int" where
  "compareColRowTie rank store a b =
     (if l_x (store ! a) = l_x (store ! b) \<and> l_y (store ! a) = l_y (store ! b)
      then (if rank a > rank b then 1 else -1)
      else compareColRow (store ! a) (store ! b))"

definition sortLayoutItemsByColRow :: "tieOrder \<Rightarrow> layoutItem list \<Rightarrow> nat list \<Rightarrow> nat list" where
  "sortLayoutItemsByColRow tie store layout =
     sort_cmp (compareColRowTie (tie store layout) store) layout"

definition sortLayoutItems ::
  "tieOrder \<Rightarrow> layoutItem list \<Rightarrow> nat list \<Rightarrow> compactType \<Rightarrow> nat list" where
  "sortLayoutItems tie store layout ct =
     (case ct of
        Horizontal \<Rightarrow> sortLayoutItemsByColRow tie store layout
      | Vertical \<Rightarrow> sortLayoutItemsByRowCol store layout
      | NoCompaction \<Rightarrow> layout)"

text \<open>
  Two engines: one leaves items at one position in input order, the other one puts the
  item with the higher address first (for an array in address order, as in
  \<^verbatim>\<open>compact\<close>, it reverses them).
\<close>

definition inputOrder :: tieOrder where
  "inputOrder store layout a = 0"

definition reversedOrder :: tieOrder where
  "reversedOrder store layout a = length store - a"

section \<open>Compaction\<close>

text \<open>The axis argument \<^verbatim>\<open>"x"\<close> or \<^verbatim>\<open>"y"\<close> of \<^verbatim>\<open>resolveCompactionCollision\<close>.\<close>

datatype axis = AxisX | AxisY

text \<open>\<^verbatim>\<open>item[axis]\<close>, the assignment \<^verbatim>\<open>item[axis] = v\<close>, and \<^verbatim>\<open>item[heightWidth[axis]]\<close>.\<close>

definition axis_get :: "axis \<Rightarrow> layoutItem \<Rightarrow> int" where
  "axis_get ax l = (case ax of AxisX \<Rightarrow> l_x l | AxisY \<Rightarrow> l_y l)"

definition axis_set :: "axis \<Rightarrow> int \<Rightarrow> layoutItem \<Rightarrow> layoutItem" where
  "axis_set ax v l = (case ax of AxisX \<Rightarrow> l\<lparr>l_x := v\<rparr> | AxisY \<Rightarrow> l\<lparr>l_y := v\<rparr>)"

definition sizeProp_get :: "axis \<Rightarrow> layoutItem \<Rightarrow> int" where
  "sizeProp_get ax l = (case ax of AxisX \<Rightarrow> l_w l | AxisY \<Rightarrow> l_h l)"

text \<open>
  The item handed to \<^verbatim>\<open>resolveCompactionCollision\<close> is either the clone that
  \<^verbatim>\<open>compact\<close> is placing (an object outside the sorted array) or an element of
  the sorted array itself, which the function then changes in place.
\<close>

datatype itemRef = Detached layoutItem | Stored nat

definition ref_get :: "layoutItem list \<Rightarrow> itemRef \<Rightarrow> layoutItem" where
  "ref_get store r = (case r of Detached l \<Rightarrow> l | Stored a \<Rightarrow> store ! a)"

definition ref_map ::
  "(layoutItem \<Rightarrow> layoutItem) \<Rightarrow> layoutItem list \<Rightarrow> itemRef \<Rightarrow> layoutItem list \<times> itemRef" where
  "ref_map f store r =
     (case r of Detached l \<Rightarrow> (store, Detached (f l))
              | Stored a \<Rightarrow> (store[a := f (store ! a)], Stored a))"

text \<open>\<^verbatim>\<open>Array.prototype.indexOf\<close>: the first index of a value, or \<open>-1\<close>.\<close>

fun indexOf :: "'a list \<Rightarrow> 'a \<Rightarrow> int" where
  "indexOf [] v = -1"
| "indexOf (u # us) v =
     (if u = v then 0 else (let k = indexOf us v in if k < 0 then -1 else k + 1))"

text \<open>
  \<^verbatim>\<open>resolveCompactionCollision\<close> and its scanning loop.  The first argument
  bounds the depth of the recursion; \<open>None\<close> means that the bound was reached.
  \<open>layout\<close> is the sorted array (addresses into \<open>store\<close>).
\<close>

function resolveCompactionCollision ::
    "nat \<Rightarrow> layoutItem list \<Rightarrow> nat list \<Rightarrow> itemRef \<Rightarrow> int \<Rightarrow> axis
       \<Rightarrow> (layoutItem list \<times> itemRef) option"
  and resolveCompactionCollision_scan ::
    "nat \<Rightarrow> layoutItem list \<Rightarrow> nat list \<Rightarrow> itemRef \<Rightarrow> int \<Rightarrow> axis \<Rightarrow> nat
       \<Rightarrow> layoutItem list option"
where
  "resolveCompactionCollision 0 store layout item moveToCoord ax = None"
| "resolveCompactionCollision (Suc n) store layout item moveToCoord ax =
     (case ref_map (\<lambda>l. axis_set ax (axis_get ax l + 1) l) store item of
        (store1, item1) \<Rightarrow>
          (let itemIndex =
                 indexOf (map (\<lambda>a. l_i (store1 ! a)) layout) (l_i (ref_get store1 item1))
           in case resolveCompactionCollision_scan n store1 layout item1 moveToCoord ax
                     (nat (itemIndex + 1)) of
                None \<Rightarrow> None
              | Some store2 \<Rightarrow> Some (ref_map (axis_set ax moveToCoord) store2 item1)))"
| "resolveCompactionCollision_scan n store layout item moveToCoord ax i =
     (if i < length layout then
        (let otherItem = store ! (layout ! i)
         in if static otherItem then
              resolveCompactionCollision_scan n store layout item moveToCoord ax (i + 1)
            else if l_y otherItem > l_y (ref_get store item) + l_h (ref_get store item) then
              Some store
            else if collides (ref_get store item) otherItem then
              (case resolveCompactionCollision n store layout (Stored (layout ! i))
                      (moveToCoord + sizeProp_get ax (ref_get store item)) ax of
                 None \<Rightarrow> None
               | Some (store', r) \<Rightarrow>
                   resolveCompactionCollision_scan n store' layout item moveToCoord ax (i + 1))
            else resolveCompactionCollision_scan n store layout item moveToCoord ax (i + 1))
      else Some store)"
  by pat_completeness auto
termination
  by (relation "measures
        [\<lambda>v. case v of Inl (n, _) \<Rightarrow> 2 * n | Inr (n, _) \<Rightarrow> 2 * n + 1,
         \<lambda>v. case v of Inl _ \<Rightarrow> 0
                      | Inr (n, store, layout, item, m, ax, i) \<Rightarrow> length layout - i]")
     auto

text \<open>The two loops of \<^verbatim>\<open>compactItem\<close> that pull an item towards the origin.\<close>

function moveUp :: "layoutItem list \<Rightarrow> layoutItem \<Rightarrow> layoutItem" where
  "moveUp compareWith l =
     (if l_y l > 0 \<and> getFirstCollision compareWith l = None
      then moveUp compareWith (l\<lparr>l_y := l_y l - 1\<rparr>) else l)"
  by pat_completeness auto
termination
  by (relation "measure (\<lambda>(compareWith, l). nat (l_y l))") auto

function moveLeft :: "layoutItem list \<Rightarrow> layoutItem \<Rightarrow> layoutItem" where
  "moveLeft compareWith l =
     (if l_x l > 0 \<and> getFirstCollision compareWith l = None
      then moveLeft compareWith (l\<lparr>l_x := l_x l - 1\<rparr>) else l)"
  by pat_completeness auto
termination
  by (relation "measure (\<lambda>(compareWith, l). nat (l_x l))") auto

declare resolveCompactionCollision_scan.simps [simp del]
declare moveUp.simps [simp del]
declare moveLeft.simps [simp del]

lemma resolveCompactionCollision_Detached:
  "resolveCompactionCollision fuel store layout (Detached l) m ax = Some (store', r)
   \<Longrightarrow> r = Detached (axis_set ax m l)"
  by (cases fuel)
     (auto simp: ref_map_def axis_set_def Let_def split: option.splits axis.splits)

lemma collides_lt:
  "collides c l \<Longrightarrow> l_y l < l_y c + l_h c \<and> l_x l < l_x c + l_w c"
  by (simp add: collides_def split: if_splits)

lemma bottom_foldl_ge:
  "m \<le> foldl (\<lambda>mx l. if l_y l + l_h l > mx then l_y l + l_h l else mx) m layout"
proof (induction layout arbitrary: m)
  case Nil then show ?case by simp
next
  case (Cons a layout)
  have "m \<le> (if l_y a + l_h a > m then l_y a + l_h a else m)" by simp
  also have "\<dots> \<le> foldl (\<lambda>mx l. if l_y l + l_h l > mx then l_y l + l_h l else mx)
                   (if l_y a + l_h a > m then l_y a + l_h a else m) layout"
    by (rule Cons.IH)
  finally show ?case by simp
qed

lemma bottom_foldl_mem:
  "c \<in> set layout \<Longrightarrow>
   l_y c + l_h c \<le> foldl (\<lambda>mx l. if l_y l + l_h l > mx then l_y l + l_h l else mx) m layout"
proof (induction layout arbitrary: m)
  case Nil then show ?case by simp
next
  case (Cons a layout)
  show ?case
  proof (cases "c = a")
    case True
    have "l_y a + l_h a \<le> (if l_y a + l_h a > m then l_y a + l_h a else m)" by simp
    also have "\<dots> \<le> foldl (\<lambda>mx l. if l_y l + l_h l > mx then l_y l + l_h l else mx)
                     (if l_y a + l_h a > m then l_y a + l_h a else m) layout"
      by (rule bottom_foldl_ge)
    finally show ?thesis using True by simp
  next
    case False
    with Cons show ?thesis by simp
  qed
qed

lemma bottom_ge: "c \<in> set layout \<Longrightarrow> l_y c + l_h c \<le> bottom layout"
  unfolding bottom_def by (rule bottom_foldl_mem)

lemma bottom_nonneg: "0 \<le> bottom layout"
  unfolding bottom_def by (rule bottom_foldl_ge)

lemma getFirstCollision_Some:
  "getFirstCollision layout l = Some c \<Longrightarrow> c \<in> set layout \<and> collides c l"
  unfolding getFirstCollision_def by (auto simp: find_Some_iff)

lemma getFirstCollision_None:
  "getFirstCollision layout l = None \<longleftrightarrow> (\<forall>c \<in> set layout. \<not> collides c l)"
  unfolding getFirstCollision_def by (auto simp: find_None_iff)

lemma moveLeft_y [simp]: "l_y (moveLeft compareWith l) = l_y l"
  by (induction compareWith l rule: moveLeft.induct) (subst moveLeft.simps, simp)

text \<open>
  The collision loop of \<^verbatim>\<open>compactItem\<close>: while the item collides with a placed
  item (and not both the mode is \<^verbatim>\<open>null\<close> and overlap is allowed), push it behind
  the collider; in horizontal mode wrap to the next row on overflow.
\<close>

function resolveLoop ::
  "nat \<Rightarrow> layoutItem list \<Rightarrow> layoutItem list \<Rightarrow> nat list \<Rightarrow> layoutItem
     \<Rightarrow> compactType \<Rightarrow> int \<Rightarrow> bool \<Rightarrow> (layoutItem list \<times> layoutItem) option" where
  "resolveLoop fuel compareWith store fullLayout l ct cols allowOverlap =
     (case getFirstCollision compareWith l of
        None \<Rightarrow> Some (store, l)
      | Some c \<Rightarrow>
          if ct = NoCompaction \<and> allowOverlap then Some (store, l)
          else
            (case (if ct = Horizontal
                   then resolveCompactionCollision fuel store fullLayout (Detached l)
                          (l_x c + l_w c) AxisX
                   else resolveCompactionCollision fuel store fullLayout (Detached l)
                          (l_y c + l_h c) AxisY) of
               None \<Rightarrow> None
             | Some (store', r) \<Rightarrow>
                 (let l1 = ref_get store' r;
                      l2 = (if ct = Horizontal \<and> l_x l1 + l_w l1 > cols
                            then moveLeft compareWith
                                   (l1\<lparr>l_x := cols - l_w l1, l_y := l_y l1 + 1\<rparr>)
                            else l1)
                  in resolveLoop fuel compareWith store' fullLayout l2 ct cols allowOverlap)))"
  by pat_completeness auto
termination
proof (relation "inv_image (less_than <*lex*> less_than)
         (\<lambda>(fuel, compareWith, store, fullLayout, l, ct, cols, allowOverlap).
            (nat (bottom compareWith - l_y l),
             nat (Max (insert 0 ((\<lambda>c. l_x c + l_w c) ` set compareWith)) - l_x l)))",
       goal_cases)
  case 1
  show ?case by (intro wf_inv_image wf_lex_prod wf_less_than)
next
  case (2 fuel compareWith store fullLayout l ct cols allowOverlap c p store' r l1 l2)
  from 2 have c: "c \<in> set compareWith" "collides c l"
    by (auto dest: getFirstCollision_Some)
  have lt: "l_y l < l_y c + l_h c" "l_x l < l_x c + l_w c"
    using collides_lt[OF c(2)] by auto
  have bot: "l_y c + l_h c \<le> bottom compareWith" using c(1) by (rule bottom_ge)
  have mx: "l_x c + l_w c \<le> Max (insert 0 ((\<lambda>c. l_x c + l_w c) ` set compareWith))"
    using c(1) by (intro Max_ge) auto
  show ?case
  proof (cases "ct = Horizontal")
    case True
    with 2 have "r = Detached (axis_set AxisX (l_x c + l_w c) l)"
      by (auto dest: resolveCompactionCollision_Detached)
    with 2 True show ?thesis
      using lt bot mx by (auto simp: ref_get_def axis_set_def Let_def)
  next
    case False
    with 2 have "r = Detached (axis_set AxisY (l_y c + l_h c) l)"
      by (auto dest: resolveCompactionCollision_Detached)
    with 2 False show ?thesis
      using lt bot mx by (auto simp: ref_get_def axis_set_def Let_def)
  qed
qed

declare resolveLoop.simps [simp del]

text \<open>\<^verbatim>\<open>compactItem\<close>: returns the store (later items may have been pushed) and the item.\<close>

definition compactItem ::
  "nat \<Rightarrow> layoutItem list \<Rightarrow> layoutItem \<Rightarrow> compactType \<Rightarrow> int \<Rightarrow> layoutItem list
     \<Rightarrow> nat list \<Rightarrow> bool \<Rightarrow> (layoutItem list \<times> layoutItem) option" where
  "compactItem fuel compareWith l ct cols store fullLayout allowOverlap =
     (let l1 = (if ct = Vertical
                then moveUp compareWith (l\<lparr>l_y := min (bottom compareWith) (l_y l)\<rparr>)
                else if ct = Horizontal then moveLeft compareWith l
                else l)
      in case resolveLoop fuel compareWith store fullLayout l1 ct cols allowOverlap of
           None \<Rightarrow> None
         | Some (store', l2) \<Rightarrow>
             (let l3 = l2\<lparr>l_y := max (l_y l2) 0\<rparr>;
                  l4 = l3\<lparr>l_x := max (l_x l3) 0\<rparr>
              in Some (store', l4)))"

text \<open>
  The loop of \<^verbatim>\<open>compact\<close> over the sorted array.  The objects of the input
  layout are the store, the object at index \<open>a\<close> of the input array has address \<open>a\<close>
  (so \<^verbatim>\<open>layout.indexOf(sorted[i])\<close> is \<open>a\<close>), and \<open>out\<close> is the output array
  with \<open>None\<close> for a slot not yet written.  The clone is pushed to
  \<^verbatim>\<open>compareWith\<close> by reference and its flag \<^verbatim>\<open>moved\<close> is cleared
  right after; nothing reads \<^verbatim>\<open>compareWith\<close> in between, so the clone is
  recorded with the flag already cleared.
\<close>

fun compact_loop ::
  "nat \<Rightarrow> compactType \<Rightarrow> int \<Rightarrow> bool \<Rightarrow> nat list \<Rightarrow> nat list \<Rightarrow> layoutItem list
     \<Rightarrow> layoutItem list \<Rightarrow> layoutItem option list \<Rightarrow> layoutItem option list option" where
  "compact_loop fuel ct cols allowOverlap sorted' [] store compareWith out = Some out"
| "compact_loop fuel ct cols allowOverlap sorted' (a # rest) store compareWith out =
     (let l = cloneLayoutItem (store ! a)
      in if \<not> static l then
           (case compactItem fuel compareWith l ct cols store sorted' allowOverlap of
              None \<Rightarrow> None
            | Some (store', l') \<Rightarrow>
                (let l'' = l'\<lparr>moved := False\<rparr>
                 in compact_loop fuel ct cols allowOverlap sorted' rest store'
                      (compareWith @ [l'']) (out[a := Some l''])))
         else compact_loop fuel ct cols allowOverlap sorted' rest store compareWith
                (out[a := Some (l\<lparr>moved := False\<rparr>)]))"

text \<open>
  \<^verbatim>\<open>compact\<close>.  The result is \<open>None\<close> when the recursion bound of
  \<^verbatim>\<open>resolveCompactionCollision\<close> was reached; every slot of the output array
  is written, since the sorted array is a permutation of the input array.
\<close>

definition compact ::
  "tieOrder \<Rightarrow> nat \<Rightarrow> layoutItem list \<Rightarrow> compactType \<Rightarrow> int \<Rightarrow> bool \<Rightarrow> layoutItem list option" where
  "compact tie fuel layout ct cols allowOverlap =
     (let compareWith = getStatics layout;
          sorted' = sortLayoutItems tie layout [0..<length layout] ct;
          out = replicate (length layout) None
      in case compact_loop fuel ct cols allowOverlap sorted' sorted' layout compareWith out of
           None \<Rightarrow> None
         | Some out' \<Rightarrow> those out')"

section \<open>Bounds correction\<close>

text \<open>
  The loop \<^verbatim>\<open>while (getFirstCollision(collidesWith, l)) l.y++\<close>.  The array
  \<^verbatim>\<open>collidesWith\<close> holds the item itself when the item is static; an item never
  collides with an item of its own id, so the loop runs on the values of the array as
  they are when it starts.
\<close>

function pushDown :: "layoutItem list \<Rightarrow> layoutItem \<Rightarrow> layoutItem" where
  "pushDown collidesWith l =
     (if getFirstCollision collidesWith l \<noteq> None
      then pushDown collidesWith (l\<lparr>l_y := l_y l + 1\<rparr>) else l)"
  by pat_completeness auto
termination
proof (relation "measure (\<lambda>(collidesWith, l). nat (bottom collidesWith - l_y l))", goal_cases)
  case 1
  show ?case by simp
next
  case (2 collidesWith l)
  then obtain c where c: "c \<in> set collidesWith" "collides c l"
    by (auto dest: getFirstCollision_Some)
  have "l_y l < l_y c + l_h c" using collides_lt[OF c(2)] by simp
  moreover have "l_y c + l_h c \<le> bottom collidesWith" using c(1) by (rule bottom_ge)
  ultimately show ?case by simp
qed

declare pushDown.simps [simp del]

text \<open>
  The two corrections that \<^verbatim>\<open>correctBounds\<close> applies to each item:
  \<^verbatim>\<open>if (l.x + l.w > bounds.cols) l.x = bounds.cols - l.w\<close> and then
  \<^verbatim>\<open>if (l.x < 0) { l.x = 0; l.w = bounds.cols }\<close>.
\<close>

definition correctOverflow :: "int \<Rightarrow> layoutItem \<Rightarrow> layoutItem" where
  "correctOverflow cols l =
     (let l1 = (if l_x l + l_w l > cols then l\<lparr>l_x := cols - l_w l\<rparr> else l)
      in if l_x l1 < 0 then l1\<lparr>l_x := 0, l_w := cols\<rparr> else l1)"

text \<open>
  \<^verbatim>\<open>correctBounds\<close> changes the items of the layout in place.  The array
  \<^verbatim>\<open>collidesWith\<close> holds references (indices into the layout), so it sees the
  corrections made to the static items before.
\<close>

fun correctBounds_loop ::
  "int \<Rightarrow> nat list \<Rightarrow> layoutItem list \<Rightarrow> nat list \<Rightarrow> layoutItem list" where
  "correctBounds_loop cols [] layout collidesWith = layout"
| "correctBounds_loop cols (i # rest) layout collidesWith =
     (let l = correctOverflow cols (layout ! i);
          layout2 = layout[i := l]
      in if \<not> static l then correctBounds_loop cols rest layout2 (collidesWith @ [i])
         else correctBounds_loop cols rest
                (layout2[i := pushDown (map ((!) layout2) collidesWith) l]) collidesWith)"

definition correctBounds :: "layoutItem list \<Rightarrow> int \<Rightarrow> layoutItem list" where
  "correctBounds layout cols =
     correctBounds_loop cols [0..<length layout] layout
       (filter (\<lambda>a. static (layout ! a)) [0..<length layout])"

section \<open>Move engine\<close>

text \<open>
  \<^verbatim>\<open>cloneLayout\<close> allocates one new object for each element of the array: the
  clones are appended to the store and the new array holds their addresses.
\<close>

definition cloneLayout :: "layoutItem list \<Rightarrow> nat list \<Rightarrow> layoutItem list \<times> nat list" where
  "cloneLayout store layout =
     (store @ map (\<lambda>a. cloneLayoutItem (store ! a)) layout,
      [length store ..< length store + length layout])"

text \<open>The mock item \<^verbatim>\<open>{x, y, w, h, i: "-1"}\<close> of \<^verbatim>\<open>moveElementAwayFromCollision\<close>.\<close>

definition fakeItem :: "int \<Rightarrow> int \<Rightarrow> int \<Rightarrow> int \<Rightarrow> layoutItem" where
  "fakeItem x y w h = mkItem ''-1'' x y w h False"

text \<open>
  The assignments \<^verbatim>\<open>if (typeof x === "number") l.x = x\<close> and
  \<^verbatim>\<open>if (typeof y === "number") l.y = y\<close> of \<^verbatim>\<open>moveElement\<close>.
\<close>

definition applyTarget :: "layoutItem \<Rightarrow> int option \<Rightarrow> int option \<Rightarrow> layoutItem" where
  "applyTarget l x y =
     (let l1 = (case x of Some xv \<Rightarrow> l\<lparr>l_x := xv\<rparr> | None \<Rightarrow> l)
      in (case y of Some yv \<Rightarrow> l1\<lparr>l_y := yv\<rparr> | None \<Rightarrow> l1))"

text \<open>
  \<^verbatim>\<open>moveElement\<close>, the loop over its collisions, and
  \<^verbatim>\<open>moveElementAwayFromCollision\<close>.  The item \<open>l\<close> is an address: the moved
  item is an element of the layout and is changed in place.  An absent target coordinate
  (\<^verbatim>\<open>undefined\<close>) is \<open>None\<close>.  The first argument bounds the depth of the
  recursion; \<open>None\<close> means that the bound was reached.  The recursive calls pass eight
  arguments, so \<^verbatim>\<open>allowOverlap\<close> is absent (false) there.
\<close>

function moveElement ::
    "tieOrder \<Rightarrow> nat \<Rightarrow> layoutItem list \<Rightarrow> nat list \<Rightarrow> nat \<Rightarrow> int option \<Rightarrow> int option \<Rightarrow> bool \<Rightarrow> bool
       \<Rightarrow> compactType \<Rightarrow> int \<Rightarrow> bool \<Rightarrow> (layoutItem list \<times> nat list) option"
  and moveElement_collisions ::
    "tieOrder \<Rightarrow> nat \<Rightarrow> nat list \<Rightarrow> layoutItem list \<Rightarrow> nat list \<Rightarrow> nat \<Rightarrow> bool \<Rightarrow> compactType \<Rightarrow> int
       \<Rightarrow> bool \<Rightarrow> (layoutItem list \<times> nat list) option"
  and moveElementAwayFromCollision ::
    "tieOrder \<Rightarrow> nat \<Rightarrow> layoutItem list \<Rightarrow> nat list \<Rightarrow> nat \<Rightarrow> nat \<Rightarrow> bool \<Rightarrow> compactType \<Rightarrow> int
       \<Rightarrow> bool \<Rightarrow> (layoutItem list \<times> nat list) option"
where
  "moveElement tie 0 store layout l x y isUserAction preventCollision ct cols allowOverlap = None"
| "moveElement tie (Suc n) store layout l x y isUserAction preventCollision ct cols allowOverlap =
     (if static (store ! l) \<and> isDraggable (store ! l) \<noteq> Some True then Some (store, layout)
      else if Some (l_y (store ! l)) = y \<and> Some (l_x (store ! l)) = x then Some (store, layout)
      else
        (let oldX = l_x (store ! l);
             oldY = l_y (store ! l);
             store1 = store[l := (applyTarget (store ! l) x y)\<lparr>moved := True\<rparr>];
             sorted0 = sortLayoutItems tie store1 layout ct;
             movingUp =
               (case ct of
                  Vertical \<Rightarrow> (case y of Some yv \<Rightarrow> oldY \<ge> yv | None \<Rightarrow> False)
                | Horizontal \<Rightarrow> (case x of Some xv \<Rightarrow> oldX \<ge> xv | None \<Rightarrow> False)
                | NoCompaction \<Rightarrow> False);
             sorted1 = (if movingUp then rev sorted0 else sorted0);
             noCompactTypeMovingUp =
               (case ct of
                  NoCompaction \<Rightarrow> (case y of Some yv \<Rightarrow> oldY \<ge> yv | None \<Rightarrow> False)
                | _ \<Rightarrow> False);
             collisions = filter (\<lambda>c. collides (store1 ! c) (store1 ! l)) sorted1;
             hasCollisions = (collisions \<noteq> [])
         in if hasCollisions \<and> allowOverlap then Some (cloneLayout store1 layout)
            else if hasCollisions \<and> preventCollision then
              Some (store1[l := (store1 ! l)\<lparr>l_x := oldX, l_y := oldY, moved := False\<rparr>],
                    layout)
            else moveElement_collisions tie n collisions store1 layout l isUserAction ct cols
                   noCompactTypeMovingUp))"
| "moveElement_collisions tie n [] store layout l isUserAction ct cols noCompactTypeMovingUp =
     Some (store, layout)"
| "moveElement_collisions tie n (collision # rest) store layout l isUserAction ct cols
       noCompactTypeMovingUp =
     (if moved (store ! collision) then
        moveElement_collisions tie n rest store layout l isUserAction ct cols noCompactTypeMovingUp
      else
        (case (if static (store ! collision)
               then moveElementAwayFromCollision tie n store layout collision l isUserAction
                      ct cols noCompactTypeMovingUp
               else moveElementAwayFromCollision tie n store layout l collision isUserAction
                      ct cols noCompactTypeMovingUp) of
           None \<Rightarrow> None
         | Some (store', layout') \<Rightarrow>
             moveElement_collisions tie n rest store' layout' l isUserAction ct cols
               noCompactTypeMovingUp))"
| "moveElementAwayFromCollision tie n store layout collidesWith itemToMove isUserAction ct cols
       noCompactTypeMovingUp =
     (let compactH = (ct = Horizontal);
          compactV = (ct = Vertical);
          cw = store ! collidesWith;
          itm = store ! itemToMove;
          preventCollision = static cw;
          fallback =
            (if \<not> compactH \<and> \<not> compactV then Some (store, layout)
             else moveElement tie n store layout itemToMove
                    (if compactH then Some (l_x itm + 1) else None)
                    (if compactV then Some (l_y itm + 1) else None)
                    False preventCollision ct cols False)
      in if isUserAction then
           (let fake0 = fakeItem
                          (if compactH then max (l_x cw - l_w itm) 0 else l_x itm)
                          (if compactV then max (l_y cw - l_h itm) 0 else l_y itm)
                          (l_w itm) (l_h itm);
                fake = (if ct = NoCompaction \<and> \<not> noCompactTypeMovingUp
                        then fakeItem (l_x itm) (max (l_y cw - l_h itm) 0) (l_w itm) (l_h itm)
                        else fake0)
            in case getFirstCollision (map ((!) store) layout) fake of
                 None \<Rightarrow>
                   (if ct = NoCompaction \<and> \<not> noCompactTypeMovingUp then
                      moveElement tie n store layout itemToMove None (Some (l_y fake))
                        False preventCollision ct cols False
                    else
                      moveElement tie n store layout itemToMove
                        (if compactH then Some (l_x fake) else None)
                        (if compactV then Some (l_y fake) else None)
                        False preventCollision ct cols False)
               | Some firstCollision \<Rightarrow>
                   (let collisionNorth = (l_y firstCollision + l_h firstCollision > l_y cw);
                        collisionWest = (l_x cw + l_w cw > l_x firstCollision)
                    in if collisionNorth \<and> compactV then
                         moveElement tie n store layout itemToMove None (Some (l_y cw + 1))
                           False preventCollision ct cols False
                       else if collisionNorth \<and> ct = NoCompaction then
                         (if noCompactTypeMovingUp then
                            (let store' = store[itemToMove := itm\<lparr>l_y := l_y cw + l_h cw\<rparr>]
                             in Some (store', sortLayoutItemsByRowCol store' layout))
                          else
                            (case moveElement tie n store layout itemToMove None
                                    (Some (l_y itm + 1)) False preventCollision ct cols False of
                               None \<Rightarrow> None
                             | Some (store', layout') \<Rightarrow>
                                 Some (store', sortLayoutItemsByRowCol store' layout)))
                       else if collisionWest \<and> compactH then
                         moveElement tie n store layout collidesWith (Some (l_x itm)) None
                           False preventCollision ct cols False
                       else fallback))
         else fallback)"
  by pat_completeness auto
termination
  by (relation "measures
        [\<lambda>v. case v of Inl (tie, n, _) \<Rightarrow> 3 * n
                      | Inr (Inl (tie, n, _)) \<Rightarrow> 3 * n + 2
                      | Inr (Inr (tie, n, _)) \<Rightarrow> 3 * n + 1,
         \<lambda>v. case v of Inr (Inl (tie, n, collisions, _)) \<Rightarrow> length collisions | _ \<Rightarrow> 0]")
     auto

declare moveElement.simps [simp del]
declare moveElement_collisions.simps [simp del]
declare moveElementAwayFromCollision.simps [simp del]

section \<open>Resize direction resolver\<close>

text \<open>A pixel rectangle \<^verbatim>\<open>{top, left, width, height}\<close>.\<close>

record position =
  p_top :: real
  p_left :: real
  p_width :: real
  p_height :: real

definition constrainWidth :: "real \<Rightarrow> real \<Rightarrow> real \<Rightarrow> real \<Rightarrow> real" where
  "constrainWidth left currentWidth newWidth containerWidth =
     (if left + newWidth > containerWidth then currentWidth else newWidth)"

definition constrainHeight :: "real \<Rightarrow> real \<Rightarrow> real \<Rightarrow> real" where
  "constrainHeight top' currentHeight newHeight =
     (if top' < 0 then currentHeight else newHeight)"

definition constrainLeft :: "real \<Rightarrow> real" where
  "constrainLeft left = max 0 left"

definition constrainTop :: "real \<Rightarrow> real" where
  "constrainTop top' = max 0 top'"

definition resizeNorth :: "position \<Rightarrow> position \<Rightarrow> real \<Rightarrow> position" where
  "resizeNorth currentSize newSize containerWidth =
     (let top' = p_top currentSize - (p_height newSize - p_height currentSize)
      in \<lparr> p_top = constrainTop top',
           p_left = p_left newSize,
           p_width = p_width newSize,
           p_height = constrainHeight top' (p_height currentSize) (p_height newSize) \<rparr>)"

definition resizeEast :: "position \<Rightarrow> position \<Rightarrow> real \<Rightarrow> position" where
  "resizeEast currentSize newSize containerWidth =
     \<lparr> p_top = p_top newSize,
       p_left = constrainLeft (p_left newSize),
       p_width = constrainWidth (p_left currentSize) (p_width currentSize)
                   (p_width newSize) containerWidth,
       p_height = p_height newSize \<rparr>"

definition resizeWest :: "position \<Rightarrow> position \<Rightarrow> real \<Rightarrow> position" where
  "resizeWest currentSize newSize containerWidth =
     (let left = p_left currentSize - (p_width newSize - p_width currentSize)
      in \<lparr> p_top = constrainTop (p_top newSize),
           p_left = constrainLeft left,
           p_width = (if left < 0 then p_width currentSize
                      else constrainWidth (p_left currentSize) (p_width currentSize)
                             (p_width newSize) containerWidth),
           p_height = p_height newSize \<rparr>)"

definition resizeSouth :: "position \<Rightarrow> position \<Rightarrow> real \<Rightarrow> position" where
  "resizeSouth currentSize newSize containerWidth =
     \<lparr> p_top = constrainTop (p_top newSize),
       p_left = p_left newSize,
       p_width = p_width newSize,
       p_height = constrainHeight (p_top newSize) (p_height currentSize) (p_height newSize) \<rparr>"

definition resizeNorthEast :: "position \<Rightarrow> position \<Rightarrow> real \<Rightarrow> position" where
  "resizeNorthEast currentSize newSize containerWidth =
     resizeNorth currentSize (resizeEast currentSize newSize containerWidth) containerWidth"

definition resizeNorthWest :: "position \<Rightarrow> position \<Rightarrow> real \<Rightarrow> position" where
  "resizeNorthWest currentSize newSize containerWidth =
     resizeNorth currentSize (resizeWest currentSize newSize containerWidth) containerWidth"

definition resizeSouthEast :: "position \<Rightarrow> position \<Rightarrow> real \<Rightarrow> position" where
  "resizeSouthEast currentSize newSize containerWidth =
     resizeSouth currentSize (resizeEast currentSize newSize containerWidth) containerWidth"

definition resizeSouthWest :: "position \<Rightarrow> position \<Rightarrow> real \<Rightarrow> position" where
  "resizeSouthWest currentSize newSize containerWidth =
     resizeSouth currentSize (resizeWest currentSize newSize containerWidth) containerWidth"

text \<open>
  \<^verbatim>\<open>ordinalResizeHandlerMap\<close>: the handler of a direction, if the direction is
  one of the eight handles.
\<close>

definition ordinalResizeHandlerMap ::
  "string \<Rightarrow> (position \<Rightarrow> position \<Rightarrow> real \<Rightarrow> position) option" where
  "ordinalResizeHandlerMap direction =
     (if direction = ''n'' then Some resizeNorth
      else if direction = ''ne'' then Some resizeNorthEast
      else if direction = ''e'' then Some resizeEast
      else if direction = ''se'' then Some resizeSouthEast
      else if direction = ''s'' then Some resizeSouth
      else if direction = ''sw'' then Some resizeSouthWest
      else if direction = ''w'' then Some resizeWest
      else if direction = ''nw'' then Some resizeNorthWest
      else None)"

text \<open>
  \<^verbatim>\<open>resizeItemInDirection\<close>.  The proposed rectangle carries all four
  fields, so the spread \<^verbatim>\<open>{...currentSize, ...newSize}\<close> is \<open>newSize\<close>.
\<close>

definition resizeItemInDirection :: "string \<Rightarrow> position \<Rightarrow> position \<Rightarrow> real \<Rightarrow> position" where
  "resizeItemInDirection direction currentSize newSize containerWidth =
     (case ordinalResizeHandlerMap direction of
        None \<Rightarrow> newSize
      | Some ordinalHandler \<Rightarrow> ordinalHandler currentSize newSize containerWidth)"

section \<open>JavaScript numbers\<close>

text \<open>
  The pixel quantities of the coordinate converter are JavaScript numbers, that is
  IEEE 754 binary64 values.  The model follows the finite ones, as the real numbers they
  denote (the two zeros are one number).  An arithmetic operation returns the exact
  result rounded to the nearest binary64 value, a tie going to the value with the even
  significand.

  \<open>ilog2 x\<close> is the binary exponent of a number other than zero (the integer \<open>e\<close>
  with \<open>2 ^ e \<le> \<bar>x\<bar> < 2 ^ (e + 1)\<close>), \<open>roundEven\<close> rounds to the nearest integer
  with ties to the even one, and \<open>roundDouble\<close> rounds to 53 significant bits, or to a
  multiple of \<open>2 ^ (-1074)\<close> in the subnormal range; it is \<open>None\<close> when the rounded
  value is \<open>2 ^ 1024\<close> or more in magnitude, where the operation returns an infinity.
\<close>

definition ilog2 :: "real \<Rightarrow> int" where
  "ilog2 x = (if 1 \<le> \<bar>x\<bar> then bitlen \<lfloor>\<bar>x\<bar>\<rfloor> - 1 else - bitlen (\<lceil>1 / \<bar>x\<bar>\<rceil> - 1))"

definition roundEven :: "real \<Rightarrow> int" where
  "roundEven v =
     (let f = \<lfloor>v\<rfloor>
      in if v - of_int f < 1 / 2 then f
         else if 1 / 2 < v - of_int f then f + 1
         else if even f then f else f + 1)"

definition roundDouble :: "real \<Rightarrow> real option" where
  "roundDouble x =
     (if x = 0 then Some 0
      else
        (let u = 2 powi (max (ilog2 x - 52) (- 1074));
             r = of_int (roundEven (x / u)) * u
         in if \<bar>r\<bar> < 2 ^ 1024 then Some r else None))"


text \<open>
  A number is \<open>Some\<close> finite value, or \<open>None\<close> when it is not a finite number (an
  infinity or \<^verbatim>\<open>NaN\<close>) or was computed from one: the model does not follow
  non-finite numbers.  A division by zero gives an infinity or \<^verbatim>\<open>NaN\<close>.
  \<^verbatim>\<open>Math.max\<close>, \<^verbatim>\<open>Math.min\<close> and \<^verbatim>\<open>Math.round\<close> are exact;
  \<^verbatim>\<open>Math.round\<close> rounds halves upwards.
\<close>

type_synonym jsnum = "real option"

definition jsAdd :: "jsnum \<Rightarrow> jsnum \<Rightarrow> jsnum" where
  "jsAdd a b = (case (a, b) of (Some u, Some v) \<Rightarrow> roundDouble (u + v) | _ \<Rightarrow> None)"

definition jsSub :: "jsnum \<Rightarrow> jsnum \<Rightarrow> jsnum" where
  "jsSub a b = (case (a, b) of (Some u, Some v) \<Rightarrow> roundDouble (u - v) | _ \<Rightarrow> None)"

definition jsMul :: "jsnum \<Rightarrow> jsnum \<Rightarrow> jsnum" where
  "jsMul a b = (case (a, b) of (Some u, Some v) \<Rightarrow> roundDouble (u * v) | _ \<Rightarrow> None)"

definition jsDiv :: "jsnum \<Rightarrow> jsnum \<Rightarrow> jsnum" where
  "jsDiv a b =
     (case (a, b) of
        (Some u, Some v) \<Rightarrow> if v = 0 then None else roundDouble (u / v)
      | _ \<Rightarrow> None)"

definition jsMax :: "jsnum \<Rightarrow> jsnum \<Rightarrow> jsnum" where
  "jsMax a b = (case (a, b) of (Some u, Some v) \<Rightarrow> Some (max u v) | _ \<Rightarrow> None)"

definition jsMin :: "jsnum \<Rightarrow> jsnum \<Rightarrow> jsnum" where
  "jsMin a b = (case (a, b) of (Some u, Some v) \<Rightarrow> Some (min u v) | _ \<Rightarrow> None)"

definition mathRound :: "real \<Rightarrow> real" where
  "mathRound v = of_int \<lfloor>v + 1 / 2\<rfloor>"

definition jsRound :: "jsnum \<Rightarrow> jsnum" where
  "jsRound a = map_option mathRound a"


section \<open>Coordinate converter\<close>

text \<open>
  Grid parameters.  \<^verbatim>\<open>maxRows\<close> is a number of rows or \<^verbatim>\<open>Infinity\<close>
  (\<open>Unlimited\<close>), for a grid without a row limit.
\<close>

datatype rowLimit = Rows real | Unlimited

record positionParams =
  pp_margin :: "real \<times> real"
  pp_containerPadding :: "real \<times> real"
  pp_containerWidth :: real
  pp_cols :: real
  pp_rowHeight :: real
  pp_maxRows :: rowLimit

record resizingState =
  rs_top :: "real option"
  rs_left :: "real option"
  rs_width :: real
  rs_height :: real

record draggingState =
  ds_top :: real
  ds_left :: real

record gridItemState =
  resizing :: "resizingState option"
  dragging :: "draggingState option"

text \<open>The object \<^verbatim>\<open>{width, height, top, left}\<close> that \<^verbatim>\<open>calcGridItemPosition\<close> returns.\<close>

record pixelPosition =
  px_top :: jsnum
  px_left :: jsnum
  px_width :: jsnum
  px_height :: jsnum

definition calcGridColWidth :: "positionParams \<Rightarrow> jsnum" where
  "calcGridColWidth positionParams =
     jsDiv (jsSub (jsSub (Some (pp_containerWidth positionParams))
                         (jsMul (Some (fst (pp_margin positionParams)))
                                (jsSub (Some (pp_cols positionParams)) (Some 1))))
                  (jsMul (Some (fst (pp_containerPadding positionParams))) (Some 2)))
           (Some (pp_cols positionParams))"

definition calcGridItemWHPx :: "jsnum \<Rightarrow> jsnum \<Rightarrow> jsnum \<Rightarrow> jsnum" where
  "calcGridItemWHPx gridUnits colOrRowSize marginPx =
     (case gridUnits of
        None \<Rightarrow> None
      | Some g \<Rightarrow>
          jsRound (jsAdd (jsMul colOrRowSize (Some g))
                         (jsMul (jsMax (Some 0) (jsSub (Some g) (Some 1))) marginPx)))"

definition clamp :: "jsnum \<Rightarrow> jsnum \<Rightarrow> jsnum \<Rightarrow> jsnum" where
  "clamp num lowerBound upperBound = jsMax (jsMin num upperBound) lowerBound"

definition calcGridItemPosition ::
  "positionParams \<Rightarrow> real \<Rightarrow> real \<Rightarrow> real \<Rightarrow> real \<Rightarrow> gridItemState option \<Rightarrow> pixelPosition" where
  "calcGridItemPosition positionParams x y w h state =
     (let colWidth = calcGridColWidth positionParams;
          (out_width, out_height) =
            (case (case state of None \<Rightarrow> None | Some s \<Rightarrow> resizing s) of
               Some r \<Rightarrow> (Some (mathRound (rs_width r)), Some (mathRound (rs_height r)))
             | None \<Rightarrow> (calcGridItemWHPx (Some w) colWidth
                          (Some (fst (pp_margin positionParams))),
                         calcGridItemWHPx (Some h) (Some (pp_rowHeight positionParams))
                           (Some (snd (pp_margin positionParams)))));
          computed =
            (jsRound (jsAdd (jsMul (jsAdd (Some (pp_rowHeight positionParams))
                                          (Some (snd (pp_margin positionParams))))
                                   (Some y))
                            (Some (snd (pp_containerPadding positionParams)))),
             jsRound (jsAdd (jsMul (jsAdd colWidth (Some (fst (pp_margin positionParams))))
                                   (Some x))
                            (Some (fst (pp_containerPadding positionParams)))));
          (out_top, out_left) =
            (case (case state of None \<Rightarrow> None | Some s \<Rightarrow> dragging s) of
               Some d \<Rightarrow> (Some (mathRound (ds_top d)), Some (mathRound (ds_left d)))
             | None \<Rightarrow>
                 (case (case state of None \<Rightarrow> None | Some s \<Rightarrow> resizing s) of
                    Some r \<Rightarrow>
                      (case (rs_top r, rs_left r) of
                         (Some t, Some l) \<Rightarrow> (Some (mathRound t), Some (mathRound l))
                       | _ \<Rightarrow> computed)
                  | None \<Rightarrow> computed))
      in \<lparr> px_top = out_top, px_left = out_left,
           px_width = out_width, px_height = out_height \<rparr>)"

text \<open>
  \<^verbatim>\<open>calcXY\<close>.  With \<^verbatim>\<open>maxRows\<close> infinite the upper bound
  \<^verbatim>\<open>maxRows - h\<close> of the clamp is infinite for every finite \<open>h\<close>, and
  \<^verbatim>\<open>Math.min(y, Infinity)\<close> is \<open>y\<close>.
\<close>

definition calcXY :: "positionParams \<Rightarrow> real \<Rightarrow> real \<Rightarrow> real \<Rightarrow> real \<Rightarrow> jsnum \<times> jsnum" where
  "calcXY positionParams top' left w h =
     (let colWidth = calcGridColWidth positionParams;
          x = jsRound (jsDiv (jsSub (Some left) (Some (fst (pp_containerPadding positionParams))))
                             (jsAdd colWidth (Some (fst (pp_margin positionParams)))));
          y = jsRound (jsDiv (jsSub (Some top') (Some (snd (pp_containerPadding positionParams))))
                             (jsAdd (Some (pp_rowHeight positionParams))
                                    (Some (snd (pp_margin positionParams)))))
      in (clamp x (Some 0) (jsSub (Some (pp_cols positionParams)) (Some w)),
          (case pp_maxRows positionParams of
             Rows maxRows \<Rightarrow> clamp y (Some 0) (jsSub (Some maxRows) (Some h))
           | Unlimited \<Rightarrow> jsMax y (Some 0))))"

section \<open>Resize scenario\<close>

text \<open>
  C9.  For the handle \<^verbatim>\<open>"nw"\<close>, \<^verbatim>\<open>resizeItemInDirection\<close> applies
  the west primitive and then the north primitive to the west primitive's output, for
  every current rectangle, proposed rectangle and container width.  For the current
  rectangle \<^verbatim>\<open>{top:100, left:100, width:200, height:150}\<close>, the proposed
  rectangle \<^verbatim>\<open>{top:80, left:80, width:220, height:170}\<close> and a container width
  of 1000 the west primitive returns the proposed rectangle and the result is
  \<^verbatim>\<open>{left:80, width:220, top:80, height:170}\<close>.  The same growth from a current
  rectangle at \<open>(10, 10)\<close> would cross the left and the top edge: the west primitive
  returns the left edge 0 and the old width, the north primitive takes both from the west
  primitive's output and returns the top edge 0 and the old height.
\<close>

theorem resizeItemInDirection_nw_scenario:
  "(\<forall>currentSize newSize containerWidth.
      resizeItemInDirection ''nw'' currentSize newSize containerWidth
        = resizeNorth currentSize (resizeWest currentSize newSize containerWidth)
            containerWidth)
   \<and> resizeWest \<lparr> p_top = 100, p_left = 100, p_width = 200, p_height = 150 \<rparr>
       \<lparr> p_top = 80, p_left = 80, p_width = 220, p_height = 170 \<rparr> 1000
     = \<lparr> p_top = 80, p_left = 80, p_width = 220, p_height = 170 \<rparr>
   \<and> resizeItemInDirection ''nw''
       \<lparr> p_top = 100, p_left = 100, p_width = 200, p_height = 150 \<rparr>
       \<lparr> p_top = 80, p_left = 80, p_width = 220, p_height = 170 \<rparr> 1000
     = \<lparr> p_top = 80, p_left = 80, p_width = 220, p_height = 170 \<rparr>
   \<and> resizeWest \<lparr> p_top = 10, p_left = 10, p_width = 200, p_height = 150 \<rparr>
       \<lparr> p_top = -10, p_left = -10, p_width = 220, p_height = 170 \<rparr> 1000
     = \<lparr> p_top = 0, p_left = 0, p_width = 200, p_height = 170 \<rparr>
   \<and> resizeItemInDirection ''nw''
       \<lparr> p_top = 10, p_left = 10, p_width = 200, p_height = 150 \<rparr>
       \<lparr> p_top = -10, p_left = -10, p_width = 220, p_height = 170 \<rparr> 1000
     = \<lparr> p_top = 0, p_left = 0, p_width = 200, p_height = 150 \<rparr>"
  by (simp add: resizeItemInDirection_def ordinalResizeHandlerMap_def resizeNorthWest_def
      resizeNorth_def resizeWest_def constrainWidth_def constrainHeight_def
      constrainLeft_def constrainTop_def)

section \<open>Facts about sorting and collisions\<close>

lemma set_insort_cmp [simp]: "set (insort_cmp cmp a xs) = insert a (set xs)"
  by (induction xs) auto

lemma set_sort_cmp [simp]: "set (sort_cmp cmp xs) = set xs"
  unfolding sort_cmp_def by (induction xs) auto

lemma distinct_insort_cmp: "distinct (insort_cmp cmp a xs) = (a \<notin> set xs \<and> distinct xs)"
  by (induction xs) auto

lemma distinct_sort_cmp [simp]: "distinct (sort_cmp cmp xs) = distinct xs"
  unfolding sort_cmp_def by (induction xs) (auto simp: distinct_insort_cmp sort_cmp_def[symmetric])

lemma length_insort_cmp [simp]: "length (insort_cmp cmp a xs) = Suc (length xs)"
  by (induction xs) auto

lemma length_sort_cmp [simp]: "length (sort_cmp cmp xs) = length xs"
  unfolding sort_cmp_def by (induction xs) auto

lemma distinct_sortLayoutItems [simp]:
  "distinct (sortLayoutItems tie store layout ct) = distinct layout"
  by (cases ct) (simp_all add: sortLayoutItems_def sortLayoutItemsByRowCol_def
      sortLayoutItemsByColRow_def)

lemma length_sortLayoutItems [simp]:
  "length (sortLayoutItems tie store layout ct) = length layout"
  by (cases ct) (simp_all add: sortLayoutItems_def sortLayoutItemsByRowCol_def
      sortLayoutItemsByColRow_def)

lemma sorted_insort_cmp:
  assumes tr: "\<And>x y z. \<not> 0 < cmp x y \<Longrightarrow> \<not> 0 < cmp y z \<Longrightarrow> \<not> 0 < cmp x z"
    and asym: "\<And>x y. 0 < cmp x y \<Longrightarrow> \<not> 0 < cmp y x"
  shows "sorted_wrt (\<lambda>x y. \<not> 0 < cmp x y) xs \<Longrightarrow>
         sorted_wrt (\<lambda>x y. \<not> 0 < cmp x y) (insort_cmp cmp a xs)"
proof (induction xs)
  case Nil
  then show ?case by simp
next
  case (Cons b bs)
  show ?case
  proof (cases "0 < cmp a b")
    case True
    have "\<not> 0 < cmp b a" using asym[OF True] .
    with Cons True show ?thesis by auto
  next
    case False
    have "\<forall>x\<in>set bs. \<not> 0 < cmp a x"
    proof
      fix x assume "x \<in> set bs"
      with Cons.prems have "\<not> 0 < cmp b x" by simp
      with False show "\<not> 0 < cmp a x" by (rule tr)
    qed
    with Cons.prems False show ?thesis by simp
  qed
qed

lemma sorted_sort_cmp:
  assumes tr: "\<And>x y z. \<not> 0 < cmp x y \<Longrightarrow> \<not> 0 < cmp y z \<Longrightarrow> \<not> 0 < cmp x z"
    and asym: "\<And>x y. 0 < cmp x y \<Longrightarrow> \<not> 0 < cmp y x"
  shows "sorted_wrt (\<lambda>x y. \<not> 0 < cmp x y) (sort_cmp cmp xs)"
proof (induction xs)
  case Nil
  show ?case by (simp add: sort_cmp_def)
next
  case (Cons a xs)
  have e: "sort_cmp cmp (a # xs) = insort_cmp cmp a (sort_cmp cmp xs)"
    by (simp add: sort_cmp_def)
  show ?case unfolding e using tr asym Cons.IH by (rule sorted_insort_cmp)
qed

text \<open>
  Every permutation of the array that is ordered by \<open>(x, y)\<close> is what
  \<^verbatim>\<open>sortLayoutItemsByColRow\<close> returns for some ranking of the items at one
  position: the model leaves out no engine whose result is ordered by \<open>(x, y)\<close>.
\<close>

lemma sortLayoutItemsByColRow_any_order:
  assumes dp: "distinct p" and sp: "set p = set layout" and dl: "distinct layout"
    and srt: "sorted_wrt (\<lambda>a b. \<not> 0 < compareColRow (store ! a) (store ! b)) p"
  shows "\<exists>tie. sortLayoutItemsByColRow tie store layout = p"
proof -
  define rank where "rank = (\<lambda>a. length (takeWhile (\<lambda>b. b \<noteq> a) p))"
  let ?cmp = "compareColRowTie rank store"
  let ?s = "sort_cmp ?cmp layout"
  have rk: "rank (p ! i) = i" if i: "i < length p" for i
  proof -
    have "takeWhile (\<lambda>b. b \<noteq> p ! i) p = take i p"
    proof (rule takeWhile_eq_take_P_nth)
      fix j assume "j < i" "j < length p"
      then show "p ! j \<noteq> p ! i" using dp i by (simp add: nth_eq_iff_index_eq)
    next
      show "\<not> p ! i \<noteq> p ! i" by simp
    qed
    then show ?thesis using i by (simp add: rank_def)
  qed
  have inj: "inj_on rank (set p)"
  proof (rule inj_onI)
    fix a b assume "a \<in> set p" "b \<in> set p" and e: "rank a = rank b"
    then obtain i j where "i < length p" "a = p ! i" "j < length p" "b = p ! j"
      by (auto simp: in_set_conv_nth)
    with e rk show "a = b" by auto
  qed
  have mp: "map rank p = [0..<length p]"
    by (rule nth_equalityI) (simp_all add: rk)
  have le: "rank a \<le> rank b" if a: "a \<in> set p" and b: "b \<in> set p" and n: "\<not> 0 < ?cmp a b"
    for a b
  proof (rule ccontr)
    assume "\<not> rank a \<le> rank b"
    then have gt: "rank b < rank a" by simp
    from a b obtain i j where ij: "i < length p" "a = p ! i" "j < length p" "b = p ! j"
      by (auto simp: in_set_conv_nth)
    with gt rk have "j < i" by auto
    with srt ij have "\<not> 0 < compareColRow (store ! b) (store ! a)"
      by (auto simp: sorted_wrt_iff_nth_less)
    with gt have "0 < ?cmp a b"
      by (auto simp: compareColRowTie_def compareColRow_def split: if_splits)
    with n show False by simp
  qed
  have ss: "set ?s = set p" using sp by simp
  have ds: "distinct ?s" using dl by simp
  have "sorted_wrt (\<lambda>a b. \<not> 0 < ?cmp a b) ?s"
    by (rule sorted_sort_cmp)
       (auto simp: compareColRowTie_def compareColRow_def split: if_splits)
  then have "sorted_wrt (\<lambda>a b. rank a \<le> rank b) ?s"
  proof (rule sorted_wrt_mono_rel[rotated])
    fix a b assume "a \<in> set ?s" "b \<in> set ?s" "\<not> 0 < ?cmp a b"
    then show "rank a \<le> rank b" using le unfolding ss by blast
  qed
  then have s1: "sorted (map rank ?s)" by (simp add: sorted_map)
  have s2: "sorted (map rank p)" unfolding mp by simp
  have d1: "distinct (map rank ?s)" using ds inj ss by (simp add: distinct_map)
  have d2: "distinct (map rank p)" unfolding mp by simp
  have "set (map rank ?s) = set (map rank p)" using ss by simp
  with s1 d1 s2 d2 have "map rank ?s = map rank p" by (rule sorted_distinct_set_unique)
  moreover have "inj_on rank (set ?s \<union> set p)" using inj ss by simp
  ultimately have "?s = p" by (simp add: inj_on_map_eq_map)
  then have "sortLayoutItemsByColRow (\<lambda>st la. rank) store layout = p"
    by (simp add: sortLayoutItemsByColRow_def)
  then show ?thesis by blast
qed

lemma sortLayoutItemsByColRow_tied_examples:
  "sortLayoutItemsByColRow inputOrder
     [mkItem ''a'' 0 0 1 1 False, mkItem ''b'' 0 0 1 1 False] [0, 1] = [0, 1]"
  "sortLayoutItemsByColRow reversedOrder
     [mkItem ''a'' 0 0 1 1 False, mkItem ''b'' 0 0 1 1 False] [0, 1] = [1, 0]"
  by (simp_all add: sortLayoutItemsByColRow_def sort_cmp_def compareColRowTie_def
      inputOrder_def reversedOrder_def mkItem_def)


text \<open>
  Two items at one position in horizontal mode: the item that the engine sorts first
  stays, the other one is pushed to the next column.
\<close>

lemma compact_tied_items_example:
  "compact inputOrder 5 [mkItem ''a'' 0 0 1 1 False, mkItem ''b'' 0 0 1 1 False]
     Horizontal 12 False
   = Some [mkItem ''a'' 0 0 1 1 False, mkItem ''b'' 1 0 1 1 False]"
  "compact reversedOrder 5 [mkItem ''a'' 0 0 1 1 False, mkItem ''b'' 0 0 1 1 False]
     Horizontal 12 False
   = Some [mkItem ''a'' 1 0 1 1 False, mkItem ''b'' 0 0 1 1 False]"
  by code_simp+

lemma set_sortLayoutItems [simp]: "set (sortLayoutItems tie store layout ct) = set layout"
  by (cases ct) (simp_all add: sortLayoutItems_def sortLayoutItemsByRowCol_def
      sortLayoutItemsByColRow_def)

lemma applyTarget_id [simp]: "l_i (applyTarget l x y) = l_i l"
  by (simp add: applyTarget_def Let_def split: option.splits)

lemma collides_moved [simp]: "collides c (l\<lparr>moved := b\<rparr>) = collides c l"
  "collides (c\<lparr>moved := b\<rparr>) l = collides c l"
  by (simp_all add: collides_def)

lemma collides_same_id: "l_i a = l_i b \<Longrightarrow> \<not> collides a b"
  by (simp add: collides_def)

lemma moveElement_hasCollisions:
  assumes "l < length store"
    and "c \<in> set layout" "collides (store ! c) (applyTarget (store ! l) x y)"
  shows "filter (\<lambda>c. collides (store[l := (applyTarget (store ! l) x y)\<lparr>moved := True\<rparr>] ! c)
                      (store[l := (applyTarget (store ! l) x y)\<lparr>moved := True\<rparr>] ! l))
           (if b then rev (sortLayoutItems tie store' layout ct) else sortLayoutItems tie store' layout ct) \<noteq> []"
proof -
  have "c \<noteq> l" using assms(3) collides_same_id[of "store ! l" "applyTarget (store ! l) x y"]
    by auto
  then have "collides (store[l := (applyTarget (store ! l) x y)\<lparr>moved := True\<rparr>] ! c)
                      (store[l := (applyTarget (store ! l) x y)\<lparr>moved := True\<rparr>] ! l)"
    using assms by simp
  then show ?thesis using assms(2) by (auto simp: filter_empty_conv)
qed

section \<open>Move engine: collision prevented\<close>

text \<open>
  C2 (as amended).  Let the item at address \<open>l\<close> be moved to a target at which it collides
  with an item of the layout, with \<^verbatim>\<open>preventCollision\<close> true and
  \<^verbatim>\<open>allowOverlap\<close> false.  Then \<^verbatim>\<open>moveElement\<close> returns the
  input array, and every field of every item has its value from before the call, except
  the flag \<^verbatim>\<open>moved\<close> of the moved item, which is cleared (unless one of the two
  guards returned early, which leaves the flag as it was).  In particular the moved
  item's x and y are the old ones.
\<close>

theorem moveElement_preventCollision_reverts:
  assumes "l < length store"
    and "c \<in> set layout"
    and "collides (store ! c) (applyTarget (store ! l) x y)"
  shows "moveElement tie (Suc n) store layout l x y isUserAction True ct cols False =
           Some (if (static (store ! l) \<and> isDraggable (store ! l) \<noteq> Some True)
                    \<or> (Some (l_y (store ! l)) = y \<and> Some (l_x (store ! l)) = x)
                 then store else store[l := (store ! l)\<lparr>moved := False\<rparr>], layout)"
proof -
  note hc = moveElement_hasCollisions[OF assms]
  have eq: "(applyTarget (store ! l) x y)\<lparr>l_x := l_x (store ! l), l_y := l_y (store ! l), moved := False\<rparr>
            = (store ! l)\<lparr>moved := False\<rparr>"
    by (simp add: applyTarget_def Let_def split: option.splits)
  show ?thesis
    using hc assms(1) by (simp add: moveElement.simps Let_def eq)
qed

theorem moveElement_preventCollision_reverts_witness:
  "moveElement inputOrder (Suc 1)
     [mkItem ''a'' 0 0 1 1 False, mkItem ''b'' 0 1 1 1 False] [0, 1] 0 (Some 0) (Some 1)
     True True Vertical 12 False
   = Some ([mkItem ''a'' 0 0 1 1 False, mkItem ''b'' 0 1 1 1 False], [0, 1])"
  using moveElement_preventCollision_reverts
          [where l = 0 and store = "[mkItem ''a'' 0 0 1 1 False, mkItem ''b'' 0 1 1 1 False]"
             and c = 1 and layout = "[0, 1]" and x = "Some 0" and y = "Some 1" and n = 1
             and isUserAction = True and ct = Vertical and cols = 12 and tie = inputOrder]
  by (simp add: mkItem_def applyTarget_def collides_def)

text \<open>
  The claim as stated fails when the moved item enters the call with its flag
  \<^verbatim>\<open>moved\<close> set (as it does in the recursive call made for a static collider):
  the flag is cleared, so that field differs from its value before the call.
\<close>

theorem moveElement_preventCollision_counterexample:
  "\<forall>tie.
     collides (mkItem ''b'' 0 1 1 1 False)
       (applyTarget ((mkItem ''a'' 0 0 1 1 False)\<lparr>moved := True\<rparr>) (Some 0) (Some 1))
     \<and> moved ((mkItem ''a'' 0 0 1 1 False)\<lparr>moved := True\<rparr>)
     \<and> moveElement tie 1
         [(mkItem ''a'' 0 0 1 1 False)\<lparr>moved := True\<rparr>, mkItem ''b'' 0 1 1 1 False]
         [0, 1] 0 (Some 0) (Some 1) True True Vertical 12 False
       = Some ([mkItem ''a'' 0 0 1 1 False, mkItem ''b'' 0 1 1 1 False], [0, 1])"
  by (simp add: moveElement.simps mkItem_def applyTarget_def collides_def
      sortLayoutItems_def sortLayoutItemsByRowCol_def sort_cmp_def compareRowCol_def)

section \<open>Move engine: overlap allowed\<close>

text \<open>
  C6 (as amended).  Let the item at address \<open>l\<close> be neither static without being
  draggable nor already at the target, and let it collide at the target with an item of
  the layout.  With \<^verbatim>\<open>allowOverlap\<close> true, \<^verbatim>\<open>moveElement\<close> returns
  a clone of the layout: the returned array holds as many new objects as the input array
  has elements (their addresses are those behind the end of the store before the call,
  so none of them is an object of the input), and the \<open>k\<close>-th of them is a copy of the
  \<open>k\<close>-th element of the input as it is after the move.  The moved item has the
  requested target coordinates (and is flagged as moved), and every other item is as
  before the call.
\<close>

theorem moveElement_allowOverlap_lands:
  assumes "l < length store"
    and "\<not> (static (store ! l) \<and> isDraggable (store ! l) \<noteq> Some True)"
    and "\<not> (Some (l_y (store ! l)) = y \<and> Some (l_x (store ! l)) = x)"
    and "c \<in> set layout"
    and "collides (store ! c) (applyTarget (store ! l) x y)"
    and "set layout \<subseteq> {..<length store}"
  shows "\<exists>store' layout'.
           moveElement tie (Suc n) store layout l x y isUserAction preventCollision ct cols True
             = Some (store', layout')
         \<and> length store' = length store + length layout
         \<and> layout' = [length store ..< length store + length layout]
         \<and> length layout' = length layout
         \<and> (\<forall>k < length layout.
               store' ! (layout' ! k) =
                 (if layout ! k = l
                  then cloneLayoutItem ((applyTarget (store ! l) x y)\<lparr>moved := True\<rparr>)
                  else cloneLayoutItem (store ! (layout ! k))))
         \<and> (\<forall>a < length store. a \<noteq> l \<longrightarrow> store' ! a = store ! a)
         \<and> store' ! l = (applyTarget (store ! l) x y)\<lparr>moved := True\<rparr>
         \<and> (\<forall>xv. x = Some xv \<longrightarrow> l_x (store' ! l) = xv)
         \<and> (\<forall>yv. y = Some yv \<longrightarrow> l_y (store' ! l) = yv)"
proof -
  let ?store1 = "store[l := (applyTarget (store ! l) x y)\<lparr>moved := True\<rparr>]"
  note hc = moveElement_hasCollisions[OF assms(1) assms(4) assms(5)]
  have res: "moveElement tie (Suc n) store layout l x y isUserAction preventCollision ct cols True
             = Some (cloneLayout ?store1 layout)"
    using hc assms(2,3) by (auto simp add: moveElement.simps Let_def)
  obtain store' layout' where cl: "cloneLayout ?store1 layout = (store', layout')"
    by (cases "cloneLayout ?store1 layout") auto
  then have st: "store' = ?store1 @ map (\<lambda>a. cloneLayoutItem (?store1 ! a)) layout"
    and la: "layout' = [length store ..< length store + length layout]"
    by (simp_all add: cloneLayout_def)
  have in_range: "\<And>k. k < length layout \<Longrightarrow> layout ! k < length store"
    using assms(6) by (auto simp: subset_iff)
  have r1: "moveElement tie (Suc n) store layout l x y isUserAction preventCollision ct cols True
             = Some (store', layout')"
    using res cl by simp
  have r0: "length store' = length store + length layout" by (simp add: st)
  have r2: "length layout' = length layout" using la by simp
  have r3: "\<forall>k < length layout.
        store' ! (layout' ! k) =
          (if layout ! k = l
           then cloneLayoutItem ((applyTarget (store ! l) x y)\<lparr>moved := True\<rparr>)
           else cloneLayoutItem (store ! (layout ! k)))"
    using assms(1) in_range by (simp add: st la nth_append)
  have r4: "\<forall>a < length store. a \<noteq> l \<longrightarrow> store' ! a = store ! a"
    by (simp add: st nth_append)
  have r5: "store' ! l = (applyTarget (store ! l) x y)\<lparr>moved := True\<rparr>"
    using assms(1) by (simp add: st nth_append)
  have r6: "\<forall>xv. x = Some xv \<longrightarrow> l_x (store' ! l) = xv"
    unfolding r5 by (simp add: applyTarget_def Let_def split: option.splits)
  have r7: "\<forall>yv. y = Some yv \<longrightarrow> l_y (store' ! l) = yv"
    unfolding r5 by (simp add: applyTarget_def Let_def split: option.splits)
  from r1 r0 la r2 r3 r4 r5 r6 r7 show ?thesis by blast
qed

theorem moveElement_allowOverlap_lands_witness:
  "\<exists>store' layout'.
     moveElement inputOrder (Suc 0)
       [mkItem ''a'' 0 0 1 1 False, mkItem ''b'' 0 1 1 1 False] [0, 1] 0 (Some 0) (Some 1)
       True False Vertical 12 True = Some (store', layout')
     \<and> length store'
         = length [mkItem ''a'' 0 0 1 1 False, mkItem ''b'' 0 1 1 1 False] + length [0, 1::nat]
     \<and> layout'
         = [length [mkItem ''a'' 0 0 1 1 False, mkItem ''b'' 0 1 1 1 False]
            ..< length [mkItem ''a'' 0 0 1 1 False, mkItem ''b'' 0 1 1 1 False]
                  + length [0, 1::nat]]
     \<and> length layout' = length [0, 1::nat]
     \<and> (\<forall>k < length [0, 1::nat].
           store' ! (layout' ! k) =
             (if [0, 1::nat] ! k = 0
              then cloneLayoutItem
                     ((applyTarget
                         ([mkItem ''a'' 0 0 1 1 False, mkItem ''b'' 0 1 1 1 False] ! 0)
                         (Some 0) (Some 1))\<lparr>moved := True\<rparr>)
              else cloneLayoutItem
                     ([mkItem ''a'' 0 0 1 1 False, mkItem ''b'' 0 1 1 1 False]
                        ! ([0, 1] ! k))))
     \<and> (\<forall>a < length [mkItem ''a'' 0 0 1 1 False, mkItem ''b'' 0 1 1 1 False].
           a \<noteq> 0 \<longrightarrow>
           store' ! a = [mkItem ''a'' 0 0 1 1 False, mkItem ''b'' 0 1 1 1 False] ! a)
     \<and> store' ! 0 =
         (applyTarget ([mkItem ''a'' 0 0 1 1 False, mkItem ''b'' 0 1 1 1 False] ! 0)
            (Some 0) (Some 1))\<lparr>moved := True\<rparr>
     \<and> (\<forall>xv. Some 0 = Some xv \<longrightarrow> l_x (store' ! 0) = xv)
     \<and> (\<forall>yv. Some 1 = Some yv \<longrightarrow> l_y (store' ! 0) = yv)"
proof -
  let ?st = "[mkItem ''a'' 0 0 1 1 False, mkItem ''b'' 0 1 1 1 False]"
  have h1: "0 < length ?st" by simp
  have h2: "\<not> (static (?st ! 0) \<and> isDraggable (?st ! 0) \<noteq> Some True)"
    by (simp add: mkItem_def)
  have h3: "\<not> (Some (l_y (?st ! 0)) = Some 1 \<and> Some (l_x (?st ! 0)) = Some 0)"
    by (simp add: mkItem_def)
  have h4: "1 \<in> set [0, 1::nat]" by simp
  have h5: "collides (?st ! 1) (applyTarget (?st ! 0) (Some 0) (Some 1))"
    by (simp add: mkItem_def applyTarget_def collides_def)
  have h6: "set [0, 1::nat] \<subseteq> {..<length ?st}" by simp
  show ?thesis
    by (rule moveElement_allowOverlap_lands[OF h1 h2 h3 h4 h5 h6])
qed

text \<open>
  The claim as stated fails in two ways.  For a static item that is not draggable the
  first guard of \<^verbatim>\<open>moveElement\<close> returns the layout as it is, and the item
  stays where it was.  For an item that is already at the target (and overlaps another
  item there) the second guard returns the input array with the input objects: what is
  returned is not a clone.
\<close>

theorem moveElement_allowOverlap_counterexample:
  "\<forall>tie.
     collides (mkItem ''b'' 0 1 1 1 False)
       (applyTarget (mkItem ''s'' 0 0 1 1 True) (Some 0) (Some 1))
     \<and> moveElement tie 1 [mkItem ''s'' 0 0 1 1 True, mkItem ''b'' 0 1 1 1 False] [0, 1] 0
         (Some 0) (Some 1) True False Vertical 12 True
       = Some ([mkItem ''s'' 0 0 1 1 True, mkItem ''b'' 0 1 1 1 False], [0, 1])
     \<and> l_y (mkItem ''s'' 0 0 1 1 True) \<noteq> 1
     \<and> collides (mkItem ''b'' 0 0 1 1 False)
         (applyTarget (mkItem ''a'' 0 0 1 1 False) (Some 0) (Some 0))
     \<and> moveElement tie 1 [mkItem ''a'' 0 0 1 1 False, mkItem ''b'' 0 0 1 1 False] [0, 1] 0
         (Some 0) (Some 0) True False Vertical 12 True
       = Some ([mkItem ''a'' 0 0 1 1 False, mkItem ''b'' 0 0 1 1 False], [0, 1])
     \<and> [0, 1] \<noteq> [length [mkItem ''a'' 0 0 1 1 False, mkItem ''b'' 0 0 1 1 False]
                    ..< length [mkItem ''a'' 0 0 1 1 False, mkItem ''b'' 0 0 1 1 False] + 2]"
  by (simp add: moveElement.simps mkItem_def applyTarget_def collides_def upt_rec)

section \<open>Comparators at equal positions\<close>

text \<open>
  C7.  The claim is that both comparators return 0 for two items at the same position.
  The comparator of \<^verbatim>\<open>sortLayoutItemsByRowCol\<close> does; the comparator of
  \<^verbatim>\<open>sortLayoutItemsByColRow\<close> has no such branch and returns \<open>-1\<close>, whichever
  of the two items comes first.
\<close>

theorem compareColRow_tie_not_zero:
  "compareRowCol (mkItem ''a'' 0 0 1 1 False) (mkItem ''b'' 0 0 1 1 False) = 0
   \<and> compareColRow (mkItem ''a'' 0 0 1 1 False) (mkItem ''b'' 0 0 1 1 False) = -1
   \<and> compareColRow (mkItem ''b'' 0 0 1 1 False) (mkItem ''a'' 0 0 1 1 False) = -1"
  by (simp add: compareRowCol_def compareColRow_def mkItem_def)

section \<open>Round trip between grid positions and pixels\<close>

text \<open>
  The binary exponent is the right one, rounding moves a number by half a unit in the last
  place at most, and it never moves a number below an integer that is below the number.
\<close>

lemma ilog2_bounds:
  assumes "x \<noteq> 0"
  shows "2 powi (ilog2 x) \<le> \<bar>x\<bar>" and "\<bar>x\<bar> < 2 powi (ilog2 x + 1)"
proof -
  show "2 powi (ilog2 x) \<le> \<bar>x\<bar>"
  proof (cases "1 \<le> \<bar>x\<bar>")
    case True
    let ?n = "\<lfloor>\<bar>x\<bar>\<rfloor>"
    have n: "0 < ?n" using True by linarith
    from bitlen_bounds[OF n] have b: "2 ^ nat (bitlen ?n - 1) \<le> ?n" by blast
    have ge: "0 \<le> bitlen ?n - 1" using n by (auto simp: bitlen_alt_def)
    have "(2::real) powi (bitlen ?n - 1) = 2 ^ nat (bitlen ?n - 1)"
      using ge by (simp add: power_int_def)
    also have "\<dots> = of_int (2 ^ nat (bitlen ?n - 1))" by simp
    also have "\<dots> \<le> of_int ?n" using b by (simp only: of_int_le_iff)
    also have "\<dots> \<le> \<bar>x\<bar>" by linarith
    finally show ?thesis using True by (simp add: ilog2_def)
  next
    case False
    let ?t = "1 / \<bar>x\<bar>"
    let ?m = "\<lceil>?t\<rceil> - 1"
    have x0: "0 < \<bar>x\<bar>" using assms by simp
    have t1: "1 < ?t" using False x0 by (simp add: field_simps)
    have m: "0 < ?m" using t1 by linarith
    from bitlen_bounds[OF m] have b: "?m < 2 ^ nat (bitlen ?m)" by blast
    then have "\<lceil>?t\<rceil> \<le> 2 ^ nat (bitlen ?m)" by linarith
    then have "of_int \<lceil>?t\<rceil> \<le> (of_int (2 ^ nat (bitlen ?m)) :: real)"
      by (simp only: of_int_le_iff)
    then have "?t \<le> 2 ^ nat (bitlen ?m)" by (simp add: ceiling_le_iff)
    then have "1 / 2 ^ nat (bitlen ?m) \<le> \<bar>x\<bar>" using x0 by (simp add: field_simps)
    moreover have "(2::real) powi (- bitlen ?m) = 1 / 2 ^ nat (bitlen ?m)"
      using bitlen_nonneg[of ?m] by (simp add: power_int_def field_simps)
    ultimately show ?thesis using False by (simp add: ilog2_def)
  qed
  show "\<bar>x\<bar> < 2 powi (ilog2 x + 1)"
  proof (cases "1 \<le> \<bar>x\<bar>")
    case True
    let ?n = "\<lfloor>\<bar>x\<bar>\<rfloor>"
    have n: "0 < ?n" using True by linarith
    from bitlen_bounds[OF n] have b: "?n < 2 ^ nat (bitlen ?n)" by blast
    then have "?n + 1 \<le> 2 ^ nat (bitlen ?n)" by linarith
    then have "of_int (?n + 1) \<le> (of_int (2 ^ nat (bitlen ?n)) :: real)"
      by (simp only: of_int_le_iff)
    then have "\<bar>x\<bar> < 2 ^ nat (bitlen ?n)" by (simp add: floor_less_iff) linarith
    moreover have "(2::real) powi (bitlen ?n) = 2 ^ nat (bitlen ?n)"
      using bitlen_nonneg[of ?n] by (simp add: power_int_def)
    ultimately show ?thesis using True by (simp add: ilog2_def)
  next
    case False
    let ?t = "1 / \<bar>x\<bar>"
    let ?m = "\<lceil>?t\<rceil> - 1"
    have x0: "0 < \<bar>x\<bar>" using assms by simp
    have t1: "1 < ?t" using False x0 by (simp add: field_simps)
    have m: "0 < ?m" using t1 by linarith
    have ge: "0 \<le> bitlen ?m - 1" using m by (auto simp: bitlen_alt_def)
    from bitlen_bounds[OF m] have b: "2 ^ nat (bitlen ?m - 1) \<le> ?m" by blast
    then have "(of_int (2 ^ nat (bitlen ?m - 1)) :: real) \<le> of_int ?m"
      by (simp only: of_int_le_iff)
    moreover have "of_int ?m < ?t" by linarith
    ultimately have "2 ^ nat (bitlen ?m - 1) < ?t" by simp
    then have "\<bar>x\<bar> < 1 / 2 ^ nat (bitlen ?m - 1)" using x0 by (simp add: field_simps)
    moreover have "(2::real) powi (- bitlen ?m + 1) = 1 / 2 ^ nat (bitlen ?m - 1)"
    proof -
      have "- bitlen ?m + 1 = - (bitlen ?m - 1)" by simp
      then show ?thesis using ge unfolding power_int_def
        by (cases "bitlen ?m - 1 = 0") (simp_all add: field_simps)
    qed
    ultimately show ?thesis using False by (simp add: ilog2_def)
  qed
qed

lemma roundEven_near: "\<bar>of_int (roundEven v) - v\<bar> \<le> 1 / 2"
  unfolding roundEven_def Let_def by (auto; linarith)

lemma roundEven_floor: "\<lfloor>v\<rfloor> \<le> roundEven v"
  unfolding roundEven_def Let_def by auto

lemma roundDouble_near:
  assumes "\<bar>x\<bar> \<le> 2 ^ 32"
  shows "\<exists>r. roundDouble x = Some r \<and> \<bar>r - x\<bar> \<le> 1 / 2 ^ 21"
proof (cases "x = 0")
  case True
  then show ?thesis by (simp add: roundDouble_def)
next
  case False
  let ?E = "max (ilog2 x - 52) (- 1074)"
  let ?u = "(2::real) powi ?E"
  let ?r = "of_int (roundEven (x / ?u)) * ?u"
  have u0: "0 < ?u" by simp
  have ub: "?u \<le> 1 / 2 ^ 20"
  proof (cases "ilog2 x - 52 \<le> - 1074")
    case True
    then have "?E = - 1074" by simp
    then have "?u = 1 / 2 ^ 1074" by (simp add: power_int_def field_simps)
    also have "\<dots> \<le> 1 / 2 ^ 20" by simp
    finally show ?thesis .
  next
    case F: False
    then have E: "?E = ilog2 x - 52" by simp
    have "(2::real) powi (ilog2 x + (- 52)) = 2 powi (ilog2 x) * 2 powi (- 52)"
      by (rule power_int_add) simp
    then have "?u = 2 powi (ilog2 x) * 2 powi (- 52)"
      unfolding E by simp
    also have "\<dots> \<le> \<bar>x\<bar> * 2 powi (- 52)"
      using ilog2_bounds(1)[OF False] by (intro mult_right_mono) simp_all
    also have "\<dots> \<le> 2 ^ 32 * 2 powi (- 52)"
      using assms by (intro mult_right_mono) simp_all
    also have "\<dots> = 1 / 2 ^ 20" by (simp add: power_int_def field_simps)
    finally show ?thesis .
  qed
  have "\<bar>?r - x\<bar> = \<bar>of_int (roundEven (x / ?u)) - x / ?u\<bar> * ?u"
  proof -
    have "?r - x = (of_int (roundEven (x / ?u)) - x / ?u) * ?u"
      using u0 by (simp add: field_simps)
    then show ?thesis using u0 by (simp add: abs_mult)
  qed
  also have "\<dots> \<le> 1 / 2 * ?u"
    using roundEven_near[of "x / ?u"] u0 by (intro mult_right_mono) simp_all
  also have "\<dots> \<le> 1 / 2 * (1 / 2 ^ 20)" using ub by simp
  also have "\<dots> = 1 / 2 ^ 21" by simp
  finally have near: "\<bar>?r - x\<bar> \<le> 1 / 2 ^ 21" .
  have "\<bar>?r\<bar> \<le> \<bar>?r - x\<bar> + \<bar>x\<bar>" by linarith
  also have "\<dots> \<le> 1 / 2 ^ 21 + 2 ^ 32" using near assms by linarith
  also have "\<dots> \<le> 2 ^ 32 + 1" by simp
  finally have "\<bar>?r\<bar> \<le> 2 ^ 32 + 1" .
  also have "\<dots> < (2::real) ^ 1024" by simp
  finally have fin: "\<bar>?r\<bar> < 2 ^ 1024" .
  have "roundDouble x = Some ?r"
    using False fin by (simp add: roundDouble_def Let_def)
  with near show ?thesis by blast
qed

lemma roundDouble_ge_int:
  assumes k: "0 \<le> k" "k \<le> 2 ^ 52" and le: "of_int k \<le> v" and r: "roundDouble v = Some r"
  shows "of_int k \<le> r"
proof (cases "v = 0")
  case True
  then show ?thesis using r le by (simp add: roundDouble_def)
next
  case False
  have vpos: "0 < v" using False k le by linarith
  let ?E = "max (ilog2 v - 52) (- 1074)"
  let ?u = "(2::real) powi ?E"
  have u0: "0 < ?u" by simp
  have re: "r = of_int (roundEven (v / ?u)) * ?u"
    using r False by (simp add: roundDouble_def Let_def split: if_splits)
  show ?thesis
  proof (cases "?E \<le> 0")
    case True
    define n where "n = k * 2 ^ nat (- ?E)"
    have u: "?u = 1 / 2 ^ nat (- ?E)"
      using True unfolding power_int_def by (cases "?E = 0") (simp_all add: field_simps)
    have ku: "of_int k / ?u = of_int n" unfolding u n_def by simp
    have "of_int n \<le> v / ?u" unfolding ku[symmetric] using le u0 by (simp add: field_simps)
    then have "n \<le> \<lfloor>v / ?u\<rfloor>" by (simp add: le_floor_iff)
    with roundEven_floor[of "v / ?u"] have "n \<le> roundEven (v / ?u)" by linarith
    then have "(of_int n :: real) \<le> of_int (roundEven (v / ?u))" by (simp only: of_int_le_iff)
    then have "of_int n * ?u \<le> of_int (roundEven (v / ?u)) * ?u"
      using u0 by (intro mult_right_mono) simp_all
    moreover have "of_int n * ?u = of_int k" using ku u0 by (simp add: field_simps)
    ultimately show ?thesis unfolding re by simp
  next
    case F: False
    then have E: "?E = ilog2 v - 52" and Epos: "0 < ?E" by simp_all
    have u1: "1 \<le> ?u"
      using Epos unfolding power_int_def by (simp add: one_le_power)
    have "(2::real) powi (ilog2 v - 52 + 52) = 2 powi (ilog2 v - 52) * 2 powi 52"
      by (rule power_int_add) simp
    then have "?u * 2 ^ 52 = 2 powi (ilog2 v)"
      unfolding E by simp
    also have "\<dots> \<le> \<bar>v\<bar>" using ilog2_bounds(1)[OF False] .
    finally have "2 ^ 52 \<le> v / ?u" using u0 vpos by (simp add: field_simps)
    then have "(of_int (2 ^ 52) :: real) \<le> v / ?u" by simp
    then have "2 ^ 52 \<le> \<lfloor>v / ?u\<rfloor>" by (simp only: le_floor_iff)
    with roundEven_floor[of "v / ?u"] have "2 ^ 52 \<le> roundEven (v / ?u)" by linarith
    then have "(of_int (2 ^ 52) :: real) \<le> of_int (roundEven (v / ?u))"
      by (simp only: of_int_le_iff)
    then have "(2 ^ 52 :: real) \<le> of_int (roundEven (v / ?u))" by simp
    then have "2 ^ 52 * 1 \<le> of_int (roundEven (v / ?u)) * ?u"
      using u1 by (intro mult_mono) simp_all
    moreover have "(of_int k :: real) \<le> 2 ^ 52"
    proof -
      have "(of_int k :: real) \<le> of_int (2 ^ 52)" using k(2) by (simp only: of_int_le_iff)
      then show ?thesis by simp
    qed
    ultimately show ?thesis unfolding re by linarith
  qed
qed

lemma mathRound_int:
  "mathRound v = of_int r \<longleftrightarrow> of_int r - 1 / 2 \<le> v \<and> v < of_int r + 1 / 2"
  unfolding mathRound_def by (auto simp: floor_eq_iff)

lemma mathRound_bounds: "v - 1 / 2 < mathRound v \<and> mathRound v \<le> v + 1 / 2"
  unfolding mathRound_def by linarith

lemma round_trip_axis:
  fixes s pad :: real and x :: int
  assumes s: "1 + 1 / 2 ^ 17 \<le> s" and x0: "0 \<le> x" and sx: "s * of_int x \<le> 2 ^ 30"
    and p: "\<bar>pad\<bar> \<le> 2 ^ 30"
  shows "\<exists>px. jsRound (jsAdd (jsMul (Some s) (Some (of_int x))) (Some pad)) = Some px
            \<and> jsRound (jsDiv (jsSub (Some px) (Some pad)) (Some s)) = Some (of_int x)"
proof -
  let ?e = "(1::real) / 2 ^ 21"
  have s1: "1 \<le> s" and s0: "0 < s" using s by simp_all
  have sx0: "0 \<le> s * of_int x" using s0 x0 by simp
  have "\<bar>s * of_int x\<bar> \<le> 2 ^ 32" using sx sx0 by simp
  from roundDouble_near[OF this] obtain a where
    a: "roundDouble (s * of_int x) = Some a" "\<bar>a - s * of_int x\<bar> \<le> ?e" by blast
  have "\<bar>a + pad\<bar> \<le> \<bar>a - s * of_int x\<bar> + \<bar>s * of_int x\<bar> + \<bar>pad\<bar>" by linarith
  also have "\<dots> \<le> ?e + 2 ^ 30 + 2 ^ 30" using a(2) sx sx0 p by linarith
  also have "\<dots> \<le> 2 ^ 32" by simp
  finally have "\<bar>a + pad\<bar> \<le> 2 ^ 32" .
  from roundDouble_near[OF this] obtain b where
    b: "roundDouble (a + pad) = Some b" "\<bar>b - (a + pad)\<bar> \<le> ?e" by blast
  define px where "px = mathRound b"
  have pxb: "\<bar>px - b\<bar> \<le> 1 / 2" using mathRound_bounds[of b] unfolding px_def by linarith
  have d0: "\<bar>px - pad - s * of_int x\<bar> \<le> 1 / 2 + 2 * ?e" using pxb b(2) a(2) by linarith
  have "\<bar>px - pad\<bar> \<le> \<bar>px - pad - s * of_int x\<bar> + \<bar>s * of_int x\<bar>" by linarith
  also have "\<dots> \<le> 1 / 2 + 2 * ?e + 2 ^ 30" using d0 sx sx0 by linarith
  also have "\<dots> \<le> 2 ^ 32" by simp
  finally have "\<bar>px - pad\<bar> \<le> 2 ^ 32" .
  from roundDouble_near[OF this] obtain c where
    c: "roundDouble (px - pad) = Some c" "\<bar>c - (px - pad)\<bar> \<le> ?e" by blast
  define d where "d = c - s * of_int x"
  have d: "\<bar>d\<bar> \<le> 1 / 2 + 3 * ?e" unfolding d_def using c(2) d0 by linarith
  have cb: "\<bar>c\<bar> \<le> 2 ^ 31"
  proof -
    have "\<bar>c\<bar> \<le> \<bar>d\<bar> + \<bar>s * of_int x\<bar>" unfolding d_def by linarith
    also have "\<dots> \<le> 1 / 2 + 3 * ?e + 2 ^ 30" using d sx sx0 by linarith
    also have "\<dots> \<le> 2 ^ 31" by simp
    finally show ?thesis .
  qed
  have "\<bar>c / s\<bar> = \<bar>c\<bar> / s" using s0 by simp
  also have "\<dots> \<le> \<bar>c\<bar> / 1" using s1 by (intro divide_left_mono) simp_all
  also have "\<dots> \<le> 2 ^ 32" using cb by simp
  finally have "\<bar>c / s\<bar> \<le> 2 ^ 32" .
  from roundDouble_near[OF this] obtain q where
    q: "roundDouble (c / s) = Some q" "\<bar>q - c / s\<bar> \<le> ?e" by blast
  have cs: "c / s = of_int x + d / s" unfolding d_def using s0 by (simp add: field_simps)
  have "\<bar>d / s\<bar> = \<bar>d\<bar> / s" using s0 by simp
  also have "\<dots> \<le> (1 / 2 + 3 * ?e) / (1 + 1 / 2 ^ 17)"
    using d s by (intro frac_le) simp_all
  also have "\<dots> < 1 / 2 - ?e" by simp
  finally have ds: "\<bar>d / s\<bar> < 1 / 2 - ?e" .
  have "\<bar>q - of_int x\<bar> < 1 / 2" using q(2) ds unfolding cs by linarith
  then have "of_int x - 1 / 2 \<le> q \<and> q < of_int x + 1 / 2" by linarith
  then have mr: "mathRound q = of_int x" by (simp add: mathRound_int)
  have 1: "jsRound (jsAdd (jsMul (Some s) (Some (of_int x))) (Some pad)) = Some px"
    by (simp add: jsRound_def jsAdd_def jsMul_def a(1) b(1) px_def)
  have 2: "jsRound (jsDiv (jsSub (Some px) (Some pad)) (Some s)) = Some (of_int x)"
    using s0 by (simp add: jsRound_def jsDiv_def jsSub_def c(1) q(1) mr)
  from 1 2 show ?thesis by blast
qed

lemma clamp_within:
  fixes x :: int
  assumes "0 \<le> x" "x \<le> 2 ^ 52" "of_int x + w \<le> c" "\<bar>c\<bar> \<le> 2 ^ 30" "\<bar>w\<bar> \<le> 2 ^ 30"
  shows "clamp (Some (of_int x)) (Some 0) (jsSub (Some c) (Some w)) = Some (of_int x)"
proof -
  have "\<bar>c - w\<bar> \<le> \<bar>c\<bar> + \<bar>w\<bar>" by linarith
  also have "\<dots> \<le> 2 ^ 30 + 2 ^ 30" using assms(4,5) by linarith
  also have "\<dots> \<le> 2 ^ 32" by simp
  finally have "\<bar>c - w\<bar> \<le> 2 ^ 32" .
  from roundDouble_near[OF this] obtain u where u: "roundDouble (c - w) = Some u" by blast
  have "of_int x \<le> c - w" using assms(3) by linarith
  from roundDouble_ge_int[OF assms(1,2) this u] have "of_int x \<le> u" .
  then show ?thesis using assms(1) by (simp add: clamp_def jsSub_def jsMin_def jsMax_def u)
qed

text \<open>
  C3 (as amended).  Let the column pitch (column width plus horizontal margin) and the
  row pitch (row height plus vertical margin), as the code computes them, be at least
  \<open>1 + 1 / 2 ^ 17\<close> pixels, let the paddings, the column count, \<^verbatim>\<open>maxRows\<close> (when
  it is finite), \<open>w\<close> and \<open>h\<close> be at most \<open>2 ^ 30\<close> in magnitude, and let \<open>(x, y)\<close> be
  integers with \<open>0 \<le> x\<close>, \<open>x + w \<le> cols\<close>, \<open>0 \<le> y\<close>, \<open>y + h \<le> maxRows\<close> whose pixel
  offsets (pitch times coordinate) are at most \<open>2 ^ 30\<close>.  Converting the grid position
  to pixels with \<^verbatim>\<open>calcGridItemPosition\<close> (no drag or resize state) and the
  resulting top and left back with \<^verbatim>\<open>calcXY\<close> gives \<open>(x, y)\<close> again.
\<close>

theorem calcXY_calcGridItemPosition_round_trip:
  fixes x y :: int
  assumes cx: "jsAdd (calcGridColWidth p) (Some (fst (pp_margin p))) = Some cx"
    and cx1: "1 + 1 / 2 ^ 17 \<le> cx" and cxx: "cx * of_int x \<le> 2 ^ 30"
    and px: "\<bar>fst (pp_containerPadding p)\<bar> \<le> 2 ^ 30"
    and cy: "jsAdd (Some (pp_rowHeight p)) (Some (snd (pp_margin p))) = Some cy"
    and cy1: "1 + 1 / 2 ^ 17 \<le> cy" and cyy: "cy * of_int y \<le> 2 ^ 30"
    and py: "\<bar>snd (pp_containerPadding p)\<bar> \<le> 2 ^ 30"
    and x0: "0 \<le> x" and xw: "of_int x + w \<le> pp_cols p"
    and cw: "\<bar>pp_cols p\<bar> \<le> 2 ^ 30" "\<bar>w\<bar> \<le> 2 ^ 30"
    and y0: "0 \<le> y"
    and yh: "case pp_maxRows p of
               Rows maxRows \<Rightarrow> of_int y + h \<le> maxRows \<and> \<bar>maxRows\<bar> \<le> 2 ^ 30 \<and> \<bar>h\<bar> \<le> 2 ^ 30
             | Unlimited \<Rightarrow> True"
  shows "\<exists>t l. px_top (calcGridItemPosition p (of_int x) (of_int y) w h None) = Some t
             \<and> px_left (calcGridItemPosition p (of_int x) (of_int y) w h None) = Some l
             \<and> calcXY p t l w h = (Some (of_int x), Some (of_int y))"
proof -
  from round_trip_axis[OF cx1 x0 cxx px] obtain l where
    l: "jsRound (jsAdd (jsMul (Some cx) (Some (of_int x))) (Some (fst (pp_containerPadding p))))
          = Some l"
       "jsRound (jsDiv (jsSub (Some l) (Some (fst (pp_containerPadding p)))) (Some cx))
          = Some (of_int x)"
    by blast
  from round_trip_axis[OF cy1 y0 cyy py] obtain t where
    t: "jsRound (jsAdd (jsMul (Some cy) (Some (of_int y))) (Some (snd (pp_containerPadding p))))
          = Some t"
       "jsRound (jsDiv (jsSub (Some t) (Some (snd (pp_containerPadding p)))) (Some cy))
          = Some (of_int y)"
    by blast
  have xs: "x \<le> 2 ^ 52"
  proof -
    have "of_int x \<le> cx * of_int x" using cx1 x0 by (simp add: mult_le_cancel_right1)
    also have "\<dots> \<le> 2 ^ 30" by (rule cxx)
    finally have "(of_int x :: real) \<le> of_int (2 ^ 30)" by simp
    then have "x \<le> 2 ^ 30" by (simp only: of_int_le_iff)
    then show ?thesis by simp
  qed
  have ys: "y \<le> 2 ^ 52"
  proof -
    have "of_int y \<le> cy * of_int y" using cy1 y0 by (simp add: mult_le_cancel_right1)
    also have "\<dots> \<le> 2 ^ 30" by (rule cyy)
    finally have "(of_int y :: real) \<le> of_int (2 ^ 30)" by simp
    then have "y \<le> 2 ^ 30" by (simp only: of_int_le_iff)
    then show ?thesis by simp
  qed
  have clx: "clamp (Some (of_int x)) (Some 0) (jsSub (Some (pp_cols p)) (Some w))
               = Some (of_int x)"
    using x0 xs xw cw by (rule clamp_within)
  have cly: "(case pp_maxRows p of
                Rows maxRows \<Rightarrow> clamp (Some (of_int y)) (Some 0) (jsSub (Some maxRows) (Some h))
              | Unlimited \<Rightarrow> jsMax (Some (of_int y)) (Some 0)) = Some (of_int y)"
  proof (cases "pp_maxRows p")
    case (Rows r)
    with yh have "of_int y + h \<le> r" "\<bar>r\<bar> \<le> 2 ^ 30" "\<bar>h\<bar> \<le> 2 ^ 30" by simp_all
    with y0 ys have "clamp (Some (of_int y)) (Some 0) (jsSub (Some r) (Some h)) = Some (of_int y)"
      by (intro clamp_within)
    then show ?thesis using Rows by simp
  next
    case Unlimited
    then show ?thesis using y0 by (simp add: jsMax_def)
  qed
  have top: "px_top (calcGridItemPosition p (of_int x) (of_int y) w h None) = Some t"
    by (simp add: calcGridItemPosition_def Let_def cy t(1) split: prod.splits)
  have left: "px_left (calcGridItemPosition p (of_int x) (of_int y) w h None) = Some l"
    by (simp add: calcGridItemPosition_def Let_def cx l(1) split: prod.splits)
  have rt: "calcXY p t l w h = (Some (of_int x), Some (of_int y))"
    by (simp add: calcXY_def Let_def cx cy l(2) t(2) clx cly)
  from top left rt show ?thesis by blast
qed

lemmas js_eval = jsAdd_def jsSub_def jsMul_def jsDiv_def jsMax_def jsMin_def jsRound_def
  mathRound_def roundDouble_def ilog2_def roundEven_def power_int_def Let_def power_one_over
  compute_bitlen calcGridColWidth_def calcGridItemPosition_def calcXY_def clamp_def
  calcGridItemWHPx_def

text \<open>
  Some values of the rounding: the binary64 value of \<open>0.1\<close>, two ties above \<open>2 ^ 53\<close>
  (to the even significand), two ties in the subnormal range, and the two sides of the
  overflow threshold.
\<close>

lemma roundDouble_examples:
  "roundDouble (1 / 10) = Some (3602879701896397 / 2 ^ 55)"
  "roundDouble (of_int (2 ^ 53 + 1)) = Some (2 ^ 53)"
  "roundDouble (of_int (2 ^ 53 + 3)) = Some (2 ^ 53 + 4)"
  "roundDouble (3 / 2 ^ 1075) = Some (1 / 2 ^ 1073)"
  "roundDouble (1 / 2 ^ 1075) = Some 0"
  "roundDouble (2 ^ 1024 - 2 ^ 970 - 1) = Some (2 ^ 1024 - 2 ^ 971)"
  "roundDouble (2 ^ 1024 - 2 ^ 970) = None"
  by (simp_all add: js_eval)

text \<open>The parameters of the specification's scenario A, and an item at \<open>(3, 2)\<close> of size \<open>2 \<times> 2\<close>.\<close>

theorem calcXY_calcGridItemPosition_round_trip_witness:
  "\<exists>t l. px_top (calcGridItemPosition
               \<lparr> pp_margin = (10, 10), pp_containerPadding = (10, 10),
                 pp_containerWidth = 1200, pp_cols = 12, pp_rowHeight = 30,
                 pp_maxRows = Rows 100 \<rparr> (of_int 3) (of_int 2) 2 2 None) = Some t
         \<and> px_left (calcGridItemPosition
               \<lparr> pp_margin = (10, 10), pp_containerPadding = (10, 10),
                 pp_containerWidth = 1200, pp_cols = 12, pp_rowHeight = 30,
                 pp_maxRows = Rows 100 \<rparr> (of_int 3) (of_int 2) 2 2 None) = Some l
         \<and> calcXY \<lparr> pp_margin = (10, 10), pp_containerPadding = (10, 10),
                    pp_containerWidth = 1200, pp_cols = 12, pp_rowHeight = 30,
                    pp_maxRows = Rows 100 \<rparr> t l 2 2
             = (Some (of_int 3), Some (of_int 2))"
proof -
  let ?p = "\<lparr> pp_margin = (10, 10), pp_containerPadding = (10, 10),
             pp_containerWidth = 1200, pp_cols = 12, pp_rowHeight = 30,
             pp_maxRows = Rows 100 \<rparr>"
  let ?cx = "the (jsAdd (calcGridColWidth ?p) (Some (fst (pp_margin ?p))))"
  let ?cy = "the (jsAdd (Some (pp_rowHeight ?p)) (Some (snd (pp_margin ?p))))"
  have h1: "jsAdd (calcGridColWidth ?p) (Some (fst (pp_margin ?p))) = Some ?cx" by (simp add: js_eval)
  have h2: "1 + 1 / 2 ^ 17 \<le> ?cx" by (simp add: js_eval)
  have h3: "?cx * of_int 3 \<le> 2 ^ 30" by (simp add: js_eval)
  have h4: "\<bar>fst (pp_containerPadding ?p)\<bar> \<le> 2 ^ 30" by simp
  have h5: "jsAdd (Some (pp_rowHeight ?p)) (Some (snd (pp_margin ?p))) = Some ?cy" by (simp add: js_eval)
  have h6: "1 + 1 / 2 ^ 17 \<le> ?cy" by (simp add: js_eval)
  have h7: "?cy * of_int 2 \<le> 2 ^ 30" by (simp add: js_eval)
  have h8: "\<bar>snd (pp_containerPadding ?p)\<bar> \<le> 2 ^ 30" by simp
  have h9: "(0::int) \<le> 3" by simp
  have h10: "of_int 3 + 2 \<le> pp_cols ?p" by simp
  have h11: "\<bar>pp_cols ?p\<bar> \<le> 2 ^ 30" by simp
  have h12: "\<bar>2::real\<bar> \<le> 2 ^ 30" by simp
  have h13: "(0::int) \<le> 2" by simp
  have h14: "case pp_maxRows ?p of
               Rows maxRows \<Rightarrow> of_int 2 + 2 \<le> maxRows \<and> \<bar>maxRows\<bar> \<le> 2 ^ 30
                                \<and> \<bar>2::real\<bar> \<le> 2 ^ 30
             | Unlimited \<Rightarrow> True" by simp
  show ?thesis
    by (rule calcXY_calcGridItemPosition_round_trip
               [OF h1 h2 h3 h4 h5 h6 h7 h8 h9 h10 h11 h12 h13 h14])
qed

text \<open>
  The claim as stated fails for a grid whose columns are narrower than a pixel: with a
  container of 6 pixels, 12 columns and no margin the column pitch is half a pixel, and
  the position \<open>(3, 0)\<close> comes back as \<open>(4, 0)\<close>.
\<close>

theorem calcXY_calcGridItemPosition_counterexample:
  "(0::real) \<le> 3 \<and> (3::real) + 1 \<le> 12 \<and> (0::real) \<le> 0 \<and> (0::real) + 1 \<le> 100
   \<and> px_top (calcGridItemPosition
        \<lparr> pp_margin = (0, 0), pp_containerPadding = (0, 0), pp_containerWidth = 6,
          pp_cols = 12, pp_rowHeight = 30, pp_maxRows = Rows 100 \<rparr> 3 0 1 1 None) = Some 0
   \<and> px_left (calcGridItemPosition
        \<lparr> pp_margin = (0, 0), pp_containerPadding = (0, 0), pp_containerWidth = 6,
          pp_cols = 12, pp_rowHeight = 30, pp_maxRows = Rows 100 \<rparr> 3 0 1 1 None) = Some 2
   \<and> calcXY \<lparr> pp_margin = (0, 0), pp_containerPadding = (0, 0), pp_containerWidth = 6,
              pp_cols = 12, pp_rowHeight = 30, pp_maxRows = Rows 100 \<rparr> 0 2 1 1
     = (Some 4, Some 0)"
  by (simp add: js_eval)

text \<open>
  Two more values.  Every operation rounds: for a container of 23 pixels with 6 columns
  and a margin of 2 the left edge of column 3 is 12, where exact arithmetic gives 12.5
  and so 13.  And a pitch above one pixel is not enough for the round trip: with a row
  height of \<open>1 + 2 ^ (-52)\<close> the row 1 comes back as row 2.
\<close>

lemma calcGridItemPosition_rounds_each_step:
  "px_left (calcGridItemPosition
     \<lparr> pp_margin = (2, 2), pp_containerPadding = (0, 0), pp_containerWidth = 23,
       pp_cols = 6, pp_rowHeight = 30, pp_maxRows = Unlimited \<rparr> 3 0 1 1 None) = Some 12"
  "mathRound ((((23 - 2 * (6 - 1) - 0 * 2) / 6 + 2) * 3 + 0)) = 13"
  by (simp_all add: js_eval)

lemma round_trip_fails_just_above_one:
  "px_top (calcGridItemPosition
     \<lparr> pp_margin = (0, 0), pp_containerPadding = (0, 1 / 2 - 1 / 2 ^ 52),
       pp_containerWidth = 1200, pp_cols = 12, pp_rowHeight = 1 + 1 / 2 ^ 52,
       pp_maxRows = Rows 100 \<rparr> 0 1 1 1 None) = Some 2"
  "snd (calcXY
     \<lparr> pp_margin = (0, 0), pp_containerPadding = (0, 1 / 2 - 1 / 2 ^ 52),
       pp_containerWidth = 1200, pp_cols = 12, pp_rowHeight = 1 + 1 / 2 ^ 52,
       pp_maxRows = Rows 100 \<rparr> 2 0 1 1) = Some 2"
  by (simp_all add: js_eval)

section \<open>Bounds correction: what it computes\<close>

lemma pushDown_spec:
  "\<exists>n. pushDown cw l = l\<lparr>l_y := l_y l + int n\<rparr>
       \<and> getFirstCollision cw (pushDown cw l) = None
       \<and> (\<forall>m<n. getFirstCollision cw (l\<lparr>l_y := l_y l + int m\<rparr>) \<noteq> None)"
proof (induction cw l rule: pushDown.induct)
  case (1 cw l)
  show ?case
  proof (cases "getFirstCollision cw l \<noteq> None")
    case False
    then have "pushDown cw l = l" by (simp add: pushDown.simps)
    with False show ?thesis by (intro exI[of _ 0]) simp
  next
    case True
    let ?l' = "l\<lparr>l_y := l_y l + 1\<rparr>"
    from 1[OF True] obtain n where n:
      "pushDown cw ?l' = ?l'\<lparr>l_y := l_y ?l' + int n\<rparr>"
      "getFirstCollision cw (pushDown cw ?l') = None"
      "\<forall>m<n. getFirstCollision cw (?l'\<lparr>l_y := l_y ?l' + int m\<rparr>) \<noteq> None"
      by blast
    have eq: "pushDown cw l = pushDown cw ?l'" using True by (subst pushDown.simps) simp
    have a: "pushDown cw l = l\<lparr>l_y := l_y l + int (Suc n)\<rparr>"
      using n(1) eq by (simp add: add.assoc)
    have b: "getFirstCollision cw (pushDown cw l) = None" using n(2) eq by simp
    have c: "\<forall>m<Suc n. getFirstCollision cw (l\<lparr>l_y := l_y l + int m\<rparr>) \<noteq> None"
    proof (intro allI impI)
      fix m assume m: "m < Suc n"
      show "getFirstCollision cw (l\<lparr>l_y := l_y l + int m\<rparr>) \<noteq> None"
      proof (cases m)
        case 0 then show ?thesis using True by simp
      next
        case (Suc m')
        with m have "m' < n" by simp
        with n(3) have "getFirstCollision cw (?l'\<lparr>l_y := l_y ?l' + int m'\<rparr>) \<noteq> None" by blast
        moreover have "l_y l + 1 + int m' = l_y l + int m" using Suc by simp
        ultimately show ?thesis by simp
      qed
    qed
    from a b c show ?thesis by blast
  qed
qed

lemma correctOverflow_frame:
  "correctOverflow cols l =
     l\<lparr>l_x := l_x (correctOverflow cols l), l_w := l_w (correctOverflow cols l)\<rparr>"
  by (simp add: correctOverflow_def Let_def)

lemma correctOverflow_fields:
  "l_x (correctOverflow cols l) =
     (if (if l_x l + l_w l > cols then cols - l_w l else l_x l) < 0 then 0
      else (if l_x l + l_w l > cols then cols - l_w l else l_x l))"
  "l_w (correctOverflow cols l) =
     (if (if l_x l + l_w l > cols then cols - l_w l else l_x l) < 0 then cols else l_w l)"
  "0 \<le> l_x (correctOverflow cols l)"
  "l_x (correctOverflow cols l) + l_w (correctOverflow cols l) \<le> cols"
  "static (correctOverflow cols l) = static l"
  "l_i (correctOverflow cols l) = l_i l"
  "l_y (correctOverflow cols l) = l_y l"
  by (simp_all add: correctOverflow_def Let_def)


lemma correctBounds_loop_inv:
  assumes "k \<le> n" "n = length layout" "length lay = n"
    and "\<forall>j. k \<le> j \<and> j < n \<longrightarrow> lay ! j = layout ! j"
    and "set cw = {j. j < n \<and> (j < k \<or> static (layout ! j))}"
  shows "length (correctBounds_loop cols [k..<n] lay cw) = n
       \<and> (\<forall>j<k. correctBounds_loop cols [k..<n] lay cw ! j = lay ! j)
       \<and> (\<forall>j. k \<le> j \<and> j < n \<longrightarrow>
            (\<not> static (layout ! j) \<longrightarrow>
               correctBounds_loop cols [k..<n] lay cw ! j = correctOverflow cols (layout ! j))
          \<and> (static (layout ! j) \<longrightarrow>
               (\<exists>m. correctBounds_loop cols [k..<n] lay cw ! j
                      = (correctOverflow cols (layout ! j))
                          \<lparr>l_y := l_y (layout ! j) + int m\<rparr>
                  \<and> (\<forall>i<n. i \<noteq> j \<and> (i < j \<or> static (layout ! i)) \<longrightarrow>
                        \<not> collides
                            (if i < j then correctBounds_loop cols [k..<n] lay cw ! i
                             else layout ! i)
                            (correctBounds_loop cols [k..<n] lay cw ! j))
                  \<and> (\<forall>m'<m. \<exists>i<n. i \<noteq> j \<and> (i < j \<or> static (layout ! i))
                        \<and> collides
                            (if i < j then correctBounds_loop cols [k..<n] lay cw ! i
                             else layout ! i)
                            ((correctOverflow cols (layout ! j))
                               \<lparr>l_y := l_y (layout ! j) + int m'\<rparr>)))))"
  using assms
proof (induction "n - k" arbitrary: k lay cw)
  case 0
  then have "k = n" by simp
  with 0 show ?case by (intro conjI allI impI) simp_all
next
  case (Suc d)
  from Suc.hyps(2) have kn: "k < n" by simp
  let ?c = "correctOverflow cols (layout ! k)"
  have layk: "lay ! k = layout ! k" using Suc.prems kn by simp
  let ?lay2 = "lay[k := ?c]"
  let ?obs = "map ((!) ?lay2) cw"
  let ?v = "if \<not> static ?c then ?c else pushDown ?obs ?c"
  let ?lay' = "lay[k := ?v]"
  let ?cw' = "if \<not> static ?c then cw @ [k] else cw"
  let ?F = "correctBounds_loop cols [k..<n] lay cw"
  have upt: "[k..<n] = k # [Suc k..<n]" using kn by (rule upt_conv_Cons)
  have unfold: "?F = correctBounds_loop cols [Suc k..<n] ?lay' ?cw'"
    unfolding upt by (simp add: Let_def layk)
  have st: "static ?c = static (layout ! k)" by (simp add: correctOverflow_fields)
  have p1: "Suc k \<le> n" using kn by simp
  have p3: "length ?lay' = n" using Suc.prems by simp
  have p4: "\<forall>j. Suc k \<le> j \<and> j < n \<longrightarrow> ?lay' ! j = layout ! j"
    using Suc.prems by simp
  have p5: "set ?cw' = {j. j < n \<and> (j < Suc k \<or> static (layout ! j))}"
    using Suc.prems(5) kn st by (auto simp: less_Suc_eq)
  have d: "d = n - Suc k" using Suc.hyps(2) by simp
  note IH = Suc.hyps(1)[OF d p1 Suc.prems(2) p3 p4 p5, folded unfold]
  have len: "length ?F = n" using IH by blast
  have low: "\<forall>j<Suc k. ?F ! j = ?lay' ! j" using IH by blast
  have Fk: "?F ! k = ?v" using low kn Suc.prems(3) by simp
  have Flow: "\<forall>j<k. ?F ! j = lay ! j" using low by simp
  have ob: "\<And>i. i < n \<Longrightarrow> i \<noteq> k \<Longrightarrow> i < k \<or> static (layout ! i) \<Longrightarrow>
              ?lay2 ! i = (if i < k then ?F ! i else layout ! i)"
    using Flow Suc.prems(4) by auto
  have Qk: "(\<not> static (layout ! k) \<longrightarrow> ?F ! k = ?c)
          \<and> (static (layout ! k) \<longrightarrow>
               (\<exists>m. ?F ! k = ?c\<lparr>l_y := l_y (layout ! k) + int m\<rparr>
                  \<and> (\<forall>i<n. i \<noteq> k \<and> (i < k \<or> static (layout ! i)) \<longrightarrow>
                        \<not> collides (if i < k then ?F ! i else layout ! i) (?F ! k))
                  \<and> (\<forall>m'<m. \<exists>i<n. i \<noteq> k \<and> (i < k \<or> static (layout ! i))
                        \<and> collides (if i < k then ?F ! i else layout ! i)
                            (?c\<lparr>l_y := l_y (layout ! k) + int m'\<rparr>))))"
  proof (intro conjI impI)
    assume "\<not> static (layout ! k)"
    then show "?F ! k = ?c" using Fk st by simp
  next
    assume s: "static (layout ! k)"
    then have Fk': "?F ! k = pushDown ?obs ?c" using Fk st by simp
    from pushDown_spec[of ?obs ?c] obtain m where m:
      "pushDown ?obs ?c = ?c\<lparr>l_y := l_y ?c + int m\<rparr>"
      "getFirstCollision ?obs (pushDown ?obs ?c) = None"
      "\<forall>m'<m. getFirstCollision ?obs (?c\<lparr>l_y := l_y ?c + int m'\<rparr>) \<noteq> None"
      by blast
    have yc: "l_y ?c = l_y (layout ! k)" by (simp add: correctOverflow_fields)
    have A: "?F ! k = ?c\<lparr>l_y := l_y (layout ! k) + int m\<rparr>"
      using Fk' m(1) yc by simp
    have B: "\<forall>i<n. i \<noteq> k \<and> (i < k \<or> static (layout ! i)) \<longrightarrow>
                \<not> collides (if i < k then ?F ! i else layout ! i) (?F ! k)"
    proof (intro allI impI)
      fix i assume i: "i < n" "i \<noteq> k \<and> (i < k \<or> static (layout ! i))"
      then have icw: "i \<in> set cw" using Suc.prems(5) by auto
      have "\<forall>j\<in>set cw. \<not> collides (?lay2 ! j) (pushDown ?obs ?c)"
        using m(2) by (simp add: getFirstCollision_None)
      with icw have "\<not> collides (?lay2 ! i) (pushDown ?obs ?c)" by blast
      then show "\<not> collides (if i < k then ?F ! i else layout ! i) (?F ! k)"
        using ob[of i] i Fk' by simp
    qed
    have C: "\<forall>m'<m. \<exists>i<n. i \<noteq> k \<and> (i < k \<or> static (layout ! i))
                \<and> collides (if i < k then ?F ! i else layout ! i)
                     (?c\<lparr>l_y := l_y (layout ! k) + int m'\<rparr>)"
    proof (intro allI impI)
      fix m' assume "m' < m"
      with m(3) obtain o' where
        o: "getFirstCollision ?obs (?c\<lparr>l_y := l_y ?c + int m'\<rparr>) = Some o'"
        by blast
      then have "o' \<in> set ?obs" "collides o' (?c\<lparr>l_y := l_y ?c + int m'\<rparr>)"
        by (auto dest: getFirstCollision_Some)
      then obtain i where i: "i \<in> set cw"
          "collides (?lay2 ! i) (?c\<lparr>l_y := l_y ?c + int m'\<rparr>)"
        by auto
      have "i \<noteq> k"
      proof
        assume "i = k"
        then have "?lay2 ! i = ?c" using kn Suc.prems(3) by simp
        with i(2) show False by (simp add: collides_def)
      qed
      moreover have "i < n" "i < k \<or> static (layout ! i)"
        using i(1) Suc.prems(5) \<open>i \<noteq> k\<close> by auto
      ultimately show "\<exists>i<n. i \<noteq> k \<and> (i < k \<or> static (layout ! i))
                \<and> collides (if i < k then ?F ! i else layout ! i)
                     (?c\<lparr>l_y := l_y (layout ! k) + int m'\<rparr>)"
        using ob[of i] i(2) yc by (intro exI[of _ i]) simp
    qed
    from A B C show "\<exists>m. ?F ! k = ?c\<lparr>l_y := l_y (layout ! k) + int m\<rparr>
                  \<and> (\<forall>i<n. i \<noteq> k \<and> (i < k \<or> static (layout ! i)) \<longrightarrow>
                        \<not> collides (if i < k then ?F ! i else layout ! i) (?F ! k))
                  \<and> (\<forall>m'<m. \<exists>i<n. i \<noteq> k \<and> (i < k \<or> static (layout ! i))
                        \<and> collides (if i < k then ?F ! i else layout ! i)
                            (?c\<lparr>l_y := l_y (layout ! k) + int m'\<rparr>))"
      by blast
  qed
  have Qhigh: "\<forall>j. Suc k \<le> j \<and> j < n \<longrightarrow>
            (\<not> static (layout ! j) \<longrightarrow> ?F ! j = correctOverflow cols (layout ! j))
          \<and> (static (layout ! j) \<longrightarrow>
               (\<exists>m. ?F ! j = (correctOverflow cols (layout ! j))\<lparr>l_y := l_y (layout ! j) + int m\<rparr>
                  \<and> (\<forall>i<n. i \<noteq> j \<and> (i < j \<or> static (layout ! i)) \<longrightarrow>
                        \<not> collides (if i < j then ?F ! i else layout ! i) (?F ! j))
                  \<and> (\<forall>m'<m. \<exists>i<n. i \<noteq> j \<and> (i < j \<or> static (layout ! i))
                        \<and> collides (if i < j then ?F ! i else layout ! i)
                            ((correctOverflow cols (layout ! j))
                               \<lparr>l_y := l_y (layout ! j) + int m'\<rparr>))))"
    using IH by blast
  show ?case
  proof (intro conjI allI impI)
    show "length ?F = n" by (rule len)
  next
    fix j assume "j < k" then show "?F ! j = lay ! j" using Flow by simp
  next
    fix j assume j: "k \<le> j \<and> j < n" and ns: "\<not> static (layout ! j)"
    show "?F ! j = correctOverflow cols (layout ! j)"
    proof (cases "j = k")
      case True then show ?thesis using Qk ns by simp
    next
      case False then show ?thesis using Qhigh j ns by (simp add: Suc_le_eq)
    qed
  next
    fix j assume j: "k \<le> j \<and> j < n" and s: "static (layout ! j)"
    show "\<exists>m. ?F ! j = (correctOverflow cols (layout ! j))\<lparr>l_y := l_y (layout ! j) + int m\<rparr>
                  \<and> (\<forall>i<n. i \<noteq> j \<and> (i < j \<or> static (layout ! i)) \<longrightarrow>
                        \<not> collides (if i < j then ?F ! i else layout ! i) (?F ! j))
                  \<and> (\<forall>m'<m. \<exists>i<n. i \<noteq> j \<and> (i < j \<or> static (layout ! i))
                        \<and> collides (if i < j then ?F ! i else layout ! i)
                            ((correctOverflow cols (layout ! j))
                               \<lparr>l_y := l_y (layout ! j) + int m'\<rparr>))"
    proof (cases "j = k")
      case True then show ?thesis using Qk s by simp
    next
      case False
      then have "Suc k \<le> j \<and> j < n" using j by simp
      then show ?thesis using Qhigh s by blast
    qed
  qed
qed


text \<open>
  C5.  \<^verbatim>\<open>correctBounds\<close> keeps the length of the layout and transforms the item at
  each index \<open>k\<close> as follows.  If \<open>x + w > cols\<close> then \<open>x\<close> becomes \<open>cols - w\<close>; if
  \<open>x\<close> is then negative, \<open>x\<close> becomes 0 and \<open>w\<close> becomes \<open>cols\<close>.  No field other than
  \<open>x\<close>, \<open>w\<close> and \<open>y\<close> changes, and afterwards \<open>0 \<le> x\<close> and \<open>x + w \<le> cols\<close>.
  A non-static item keeps its \<open>y\<close>.  A static item is pushed down one unit at a time
  until it is clear of the obstacles: its final \<open>y\<close> is at least the old one, at the
  final \<open>y\<close> it collides with no obstacle, and at every \<open>y'\<close> from the old \<open>y\<close> up to
  the final one (exclusive) it did collide with an obstacle.  The obstacles of the item
  at \<open>k\<close> are the items before \<open>k\<close> as corrected, and the static items after \<open>k\<close> as
  they are in the input.
\<close>

theorem correctBounds_spec:
  "length (correctBounds layout cols) = length layout
   \<and> (\<forall>k<length layout.
        l_x (correctBounds layout cols ! k) =
          (if (if l_x (layout ! k) + l_w (layout ! k) > cols
               then cols - l_w (layout ! k) else l_x (layout ! k)) < 0 then 0
           else (if l_x (layout ! k) + l_w (layout ! k) > cols
                 then cols - l_w (layout ! k) else l_x (layout ! k)))
      \<and> l_w (correctBounds layout cols ! k) =
          (if (if l_x (layout ! k) + l_w (layout ! k) > cols
               then cols - l_w (layout ! k) else l_x (layout ! k)) < 0 then cols
           else l_w (layout ! k))
      \<and> correctBounds layout cols ! k =
          (layout ! k)\<lparr>l_x := l_x (correctBounds layout cols ! k),
                        l_w := l_w (correctBounds layout cols ! k),
                        l_y := l_y (correctBounds layout cols ! k)\<rparr>
      \<and> 0 \<le> l_x (correctBounds layout cols ! k)
      \<and> l_x (correctBounds layout cols ! k) + l_w (correctBounds layout cols ! k) \<le> cols
      \<and> (\<not> static (layout ! k) \<longrightarrow>
            l_y (correctBounds layout cols ! k) = l_y (layout ! k))
      \<and> (static (layout ! k) \<longrightarrow>
            l_y (layout ! k) \<le> l_y (correctBounds layout cols ! k)
          \<and> (\<forall>i<length layout. i \<noteq> k \<and> (i < k \<or> static (layout ! i)) \<longrightarrow>
                \<not> collides (if i < k then correctBounds layout cols ! i else layout ! i)
                     (correctBounds layout cols ! k))
          \<and> (\<forall>y'. l_y (layout ! k) \<le> y' \<and> y' < l_y (correctBounds layout cols ! k) \<longrightarrow>
                (\<exists>i<length layout. i \<noteq> k \<and> (i < k \<or> static (layout ! i))
                   \<and> collides (if i < k then correctBounds layout cols ! i else layout ! i)
                        ((correctBounds layout cols ! k)\<lparr>l_y := y'\<rparr>)))))"
proof -
  let ?n = "length layout"
  let ?F = "correctBounds layout cols"
  have F: "?F = correctBounds_loop cols [0..<?n] layout
                  (filter (\<lambda>a. static (layout ! a)) [0..<?n])"
    by (simp add: correctBounds_def)
  have cw: "set (filter (\<lambda>a. static (layout ! a)) [0..<?n])
              = {j. j < ?n \<and> (j < 0 \<or> static (layout ! j))}"
    by auto
  have inv: "length ?F = ?n
       \<and> (\<forall>j<0. ?F ! j = layout ! j)
       \<and> (\<forall>j. 0 \<le> j \<and> j < ?n \<longrightarrow>
            (\<not> static (layout ! j) \<longrightarrow> ?F ! j = correctOverflow cols (layout ! j))
          \<and> (static (layout ! j) \<longrightarrow>
               (\<exists>m. ?F ! j = (correctOverflow cols (layout ! j))\<lparr>l_y := l_y (layout ! j) + int m\<rparr>
                  \<and> (\<forall>i<?n. i \<noteq> j \<and> (i < j \<or> static (layout ! i)) \<longrightarrow>
                        \<not> collides (if i < j then ?F ! i else layout ! i) (?F ! j))
                  \<and> (\<forall>m'<m. \<exists>i<?n. i \<noteq> j \<and> (i < j \<or> static (layout ! i))
                        \<and> collides (if i < j then ?F ! i else layout ! i)
                            ((correctOverflow cols (layout ! j))
                               \<lparr>l_y := l_y (layout ! j) + int m'\<rparr>)))))"
    unfolding F by (rule correctBounds_loop_inv[OF _ refl refl _ cw]) simp_all
  have len: "length ?F = ?n" using inv by (rule conjunct1)
  have per: "\<And>j. j < ?n \<Longrightarrow>
            (\<not> static (layout ! j) \<longrightarrow> ?F ! j = correctOverflow cols (layout ! j))
          \<and> (static (layout ! j) \<longrightarrow>
               (\<exists>m. ?F ! j = (correctOverflow cols (layout ! j))\<lparr>l_y := l_y (layout ! j) + int m\<rparr>
                  \<and> (\<forall>i<?n. i \<noteq> j \<and> (i < j \<or> static (layout ! i)) \<longrightarrow>
                        \<not> collides (if i < j then ?F ! i else layout ! i) (?F ! j))
                  \<and> (\<forall>m'<m. \<exists>i<?n. i \<noteq> j \<and> (i < j \<or> static (layout ! i))
                        \<and> collides (if i < j then ?F ! i else layout ! i)
                            ((correctOverflow cols (layout ! j))
                               \<lparr>l_y := l_y (layout ! j) + int m'\<rparr>))))"
    using inv by simp
  have item: "\<And>k. k < ?n \<Longrightarrow>
        l_x (?F ! k) =
          (if (if l_x (layout ! k) + l_w (layout ! k) > cols
               then cols - l_w (layout ! k) else l_x (layout ! k)) < 0 then 0
           else (if l_x (layout ! k) + l_w (layout ! k) > cols
                 then cols - l_w (layout ! k) else l_x (layout ! k)))
      \<and> l_w (?F ! k) =
          (if (if l_x (layout ! k) + l_w (layout ! k) > cols
               then cols - l_w (layout ! k) else l_x (layout ! k)) < 0 then cols
           else l_w (layout ! k))
      \<and> ?F ! k = (layout ! k)\<lparr>l_x := l_x (?F ! k), l_w := l_w (?F ! k), l_y := l_y (?F ! k)\<rparr>
      \<and> 0 \<le> l_x (?F ! k)
      \<and> l_x (?F ! k) + l_w (?F ! k) \<le> cols
      \<and> (\<not> static (layout ! k) \<longrightarrow> l_y (?F ! k) = l_y (layout ! k))
      \<and> (static (layout ! k) \<longrightarrow>
            l_y (layout ! k) \<le> l_y (?F ! k)
          \<and> (\<forall>i<?n. i \<noteq> k \<and> (i < k \<or> static (layout ! i)) \<longrightarrow>
                \<not> collides (if i < k then ?F ! i else layout ! i) (?F ! k))
          \<and> (\<forall>y'. l_y (layout ! k) \<le> y' \<and> y' < l_y (?F ! k) \<longrightarrow>
                (\<exists>i<?n. i \<noteq> k \<and> (i < k \<or> static (layout ! i))
                   \<and> collides (if i < k then ?F ! i else layout ! i)
                        ((?F ! k)\<lparr>l_y := y'\<rparr>))))"
  proof -
    fix k assume k: "k < ?n"
    let ?c = "correctOverflow cols (layout ! k)"
    note fr = correctOverflow_frame[of cols "layout ! k"]
    have xw: "l_x (?F ! k) = l_x ?c \<and> l_w (?F ! k) = l_w ?c"
      using per[OF k] by (cases "static (layout ! k)") auto
    have c1: "l_x (?F ! k) =
          (if (if l_x (layout ! k) + l_w (layout ! k) > cols
               then cols - l_w (layout ! k) else l_x (layout ! k)) < 0 then 0
           else (if l_x (layout ! k) + l_w (layout ! k) > cols
                 then cols - l_w (layout ! k) else l_x (layout ! k)))"
      using xw correctOverflow_fields(1)[of cols "layout ! k"] by simp
    have c2: "l_w (?F ! k) =
          (if (if l_x (layout ! k) + l_w (layout ! k) > cols
               then cols - l_w (layout ! k) else l_x (layout ! k)) < 0 then cols
           else l_w (layout ! k))"
      using xw correctOverflow_fields(2)[of cols "layout ! k"] by simp
    have c4: "0 \<le> l_x (?F ! k)"
      using xw correctOverflow_fields(3)[of cols "layout ! k"] by simp
    have c5: "l_x (?F ! k) + l_w (?F ! k) \<le> cols"
      using xw correctOverflow_fields(4)[of cols "layout ! k"] by simp
    have c3: "?F ! k = (layout ! k)\<lparr>l_x := l_x (?F ! k), l_w := l_w (?F ! k),
                                       l_y := l_y (?F ! k)\<rparr>"
    proof -
      obtain yy where e: "?F ! k = ?c\<lparr>l_y := yy\<rparr>"
        using per[OF k] by (cases "static (layout ! k)") (auto intro: that[of "l_y ?c"])
      have e': "?F ! k = (layout ! k)\<lparr>l_x := l_x ?c, l_w := l_w ?c, l_y := yy\<rparr>"
        by (subst fr[symmetric]) (rule e)
      from e' show ?thesis by simp
    qed
    have c6: "\<not> static (layout ! k) \<longrightarrow> l_y (?F ! k) = l_y (layout ! k)"
      using per[OF k] by (simp add: correctOverflow_fields)
    have c7: "static (layout ! k) \<longrightarrow>
            l_y (layout ! k) \<le> l_y (?F ! k)
          \<and> (\<forall>i<?n. i \<noteq> k \<and> (i < k \<or> static (layout ! i)) \<longrightarrow>
                \<not> collides (if i < k then ?F ! i else layout ! i) (?F ! k))
          \<and> (\<forall>y'. l_y (layout ! k) \<le> y' \<and> y' < l_y (?F ! k) \<longrightarrow>
                (\<exists>i<?n. i \<noteq> k \<and> (i < k \<or> static (layout ! i))
                   \<and> collides (if i < k then ?F ! i else layout ! i)
                        ((?F ! k)\<lparr>l_y := y'\<rparr>)))"
    proof
      assume True: "static (layout ! k)"
      with per[OF k] obtain m where m:
        "?F ! k = ?c\<lparr>l_y := l_y (layout ! k) + int m\<rparr>"
        "\<forall>i<?n. i \<noteq> k \<and> (i < k \<or> static (layout ! i)) \<longrightarrow>
            \<not> collides (if i < k then ?F ! i else layout ! i) (?F ! k)"
        "\<forall>m'<m. \<exists>i<?n. i \<noteq> k \<and> (i < k \<or> static (layout ! i))
            \<and> collides (if i < k then ?F ! i else layout ! i)
                 (?c\<lparr>l_y := l_y (layout ! k) + int m'\<rparr>)"
        by blast
      have a1: "l_y (?F ! k) = l_y (layout ! k) + int m"
        unfolding m(1) by simp
      have a0: "l_y (layout ! k) \<le> l_y (?F ! k)" using a1 by simp
      have a3: "\<forall>y'. l_y (layout ! k) \<le> y' \<and> y' < l_y (?F ! k) \<longrightarrow>
                (\<exists>i<?n. i \<noteq> k \<and> (i < k \<or> static (layout ! i))
                   \<and> collides (if i < k then ?F ! i else layout ! i)
                        ((?F ! k)\<lparr>l_y := y'\<rparr>))"
      proof (intro allI impI)
        fix y' assume y': "l_y (layout ! k) \<le> y' \<and> y' < l_y (?F ! k)"
        define m' where "m' = nat (y' - l_y (layout ! k))"
        have lt: "m' < m" using y' a1 unfolding m'_def by linarith
        have e1: "l_y (layout ! k) + int m' = y'" using y' by (simp add: m'_def)
        have e2: "(?F ! k)\<lparr>l_y := y'\<rparr> = ?c\<lparr>l_y := y'\<rparr>" unfolding m(1) by simp
        from m(3) lt obtain i where i: "i < ?n" "i \<noteq> k \<and> (i < k \<or> static (layout ! i))"
            "collides (if i < k then ?F ! i else layout ! i)
               (?c\<lparr>l_y := l_y (layout ! k) + int m'\<rparr>)"
          by blast
        show "\<exists>i<?n. i \<noteq> k \<and> (i < k \<or> static (layout ! i))
                   \<and> collides (if i < k then ?F ! i else layout ! i)
                        ((?F ! k)\<lparr>l_y := y'\<rparr>)"
          unfolding e2 using i unfolding e1 by blast
      qed
      from a0 m(2) a3 show
        "l_y (layout ! k) \<le> l_y (?F ! k)
          \<and> (\<forall>i<?n. i \<noteq> k \<and> (i < k \<or> static (layout ! i)) \<longrightarrow>
                \<not> collides (if i < k then ?F ! i else layout ! i) (?F ! k))
          \<and> (\<forall>y'. l_y (layout ! k) \<le> y' \<and> y' < l_y (?F ! k) \<longrightarrow>
                (\<exists>i<?n. i \<noteq> k \<and> (i < k \<or> static (layout ! i))
                   \<and> collides (if i < k then ?F ! i else layout ! i)
                        ((?F ! k)\<lparr>l_y := y'\<rparr>)))"
        by (intro conjI)
    qed
    from c1 c2 c3 c4 c5 c6 c7 show
      "l_x (?F ! k) =
          (if (if l_x (layout ! k) + l_w (layout ! k) > cols
               then cols - l_w (layout ! k) else l_x (layout ! k)) < 0 then 0
           else (if l_x (layout ! k) + l_w (layout ! k) > cols
                 then cols - l_w (layout ! k) else l_x (layout ! k)))
      \<and> l_w (?F ! k) =
          (if (if l_x (layout ! k) + l_w (layout ! k) > cols
               then cols - l_w (layout ! k) else l_x (layout ! k)) < 0 then cols
           else l_w (layout ! k))
      \<and> ?F ! k = (layout ! k)\<lparr>l_x := l_x (?F ! k), l_w := l_w (?F ! k), l_y := l_y (?F ! k)\<rparr>
      \<and> 0 \<le> l_x (?F ! k)
      \<and> l_x (?F ! k) + l_w (?F ! k) \<le> cols
      \<and> (\<not> static (layout ! k) \<longrightarrow> l_y (?F ! k) = l_y (layout ! k))
      \<and> (static (layout ! k) \<longrightarrow>
            l_y (layout ! k) \<le> l_y (?F ! k)
          \<and> (\<forall>i<?n. i \<noteq> k \<and> (i < k \<or> static (layout ! i)) \<longrightarrow>
                \<not> collides (if i < k then ?F ! i else layout ! i) (?F ! k))
          \<and> (\<forall>y'. l_y (layout ! k) \<le> y' \<and> y' < l_y (?F ! k) \<longrightarrow>
                (\<exists>i<?n. i \<noteq> k \<and> (i < k \<or> static (layout ! i))
                   \<and> collides (if i < k then ?F ! i else layout ! i)
                        ((?F ! k)\<lparr>l_y := y'\<rparr>))))"
      by (intro conjI)
  qed
  show ?thesis
  proof (rule conjI[OF len], intro allI impI)
    fix k assume "k < ?n"
    from item[OF this] show
      "l_x (?F ! k) =
          (if (if l_x (layout ! k) + l_w (layout ! k) > cols
               then cols - l_w (layout ! k) else l_x (layout ! k)) < 0 then 0
           else (if l_x (layout ! k) + l_w (layout ! k) > cols
                 then cols - l_w (layout ! k) else l_x (layout ! k)))
      \<and> l_w (?F ! k) =
          (if (if l_x (layout ! k) + l_w (layout ! k) > cols
               then cols - l_w (layout ! k) else l_x (layout ! k)) < 0 then cols
           else l_w (layout ! k))
      \<and> ?F ! k = (layout ! k)\<lparr>l_x := l_x (?F ! k), l_w := l_w (?F ! k), l_y := l_y (?F ! k)\<rparr>
      \<and> 0 \<le> l_x (?F ! k)
      \<and> l_x (?F ! k) + l_w (?F ! k) \<le> cols
      \<and> (\<not> static (layout ! k) \<longrightarrow> l_y (?F ! k) = l_y (layout ! k))
      \<and> (static (layout ! k) \<longrightarrow>
            l_y (layout ! k) \<le> l_y (?F ! k)
          \<and> (\<forall>i<?n. i \<noteq> k \<and> (i < k \<or> static (layout ! i)) \<longrightarrow>
                \<not> collides (if i < k then ?F ! i else layout ! i) (?F ! k))
          \<and> (\<forall>y'. l_y (layout ! k) \<le> y' \<and> y' < l_y (?F ! k) \<longrightarrow>
                (\<exists>i<?n. i \<noteq> k \<and> (i < k \<or> static (layout ! i))
                   \<and> collides (if i < k then ?F ! i else layout ! i)
                        ((?F ! k)\<lparr>l_y := y'\<rparr>))))" .
  qed
qed



theorem correctBounds_spec_witness:
  "length (correctBounds [mkItem ''a'' 11 0 2 1 False, mkItem ''s'' (-1) 0 2 1 True] 12) = 2
   \<and> l_x (correctBounds [mkItem ''a'' 11 0 2 1 False, mkItem ''s'' (-1) 0 2 1 True] 12 ! 0) = 10
   \<and> l_x (correctBounds [mkItem ''a'' 11 0 2 1 False, mkItem ''s'' (-1) 0 2 1 True] 12 ! 1) = 0
   \<and> l_w (correctBounds [mkItem ''a'' 11 0 2 1 False, mkItem ''s'' (-1) 0 2 1 True] 12 ! 1) = 12"
proof -
  let ?L = "[mkItem ''a'' 11 0 2 1 False, mkItem ''s'' (-1) 0 2 1 True]"
  note s = correctBounds_spec[of ?L 12]
  have len: "length (correctBounds ?L 12) = 2"
    using s[THEN conjunct1] by simp
  have x0: "l_x (correctBounds ?L 12 ! 0) = 10"
    using s[THEN conjunct2, rule_format, of 0, THEN conjunct1] by (simp add: mkItem_def)
  have x1: "l_x (correctBounds ?L 12 ! 1) = 0"
    using s[THEN conjunct2, rule_format, of 1, THEN conjunct1] by (simp add: mkItem_def)
  have w1: "l_w (correctBounds ?L 12 ! 1) = 12"
    using s[THEN conjunct2, rule_format, of 1, THEN conjunct2, THEN conjunct1]
    by (simp add: mkItem_def)
  from len x0 x1 w1 show ?thesis by (intro conjI)
qed


section \<open>Scanning in the compaction push\<close>

text \<open>
  C8.  The claim is that the item is displaced to the far edge of its collider along the
  compaction axis, and that the recursive push stops scanning the later items as soon as
  one starts beyond the moved item's far edge on that same axis.  The displacement is as
  claimed.  The scan, however, always compares \<open>y\<close> with \<open>y + h\<close>, also when the axis
  is \<open>x\<close>.  Here the item \<open>a\<close> (at \<open>x = 1\<close>, three wide) is pushed behind a collider
  that ends at \<open>x = 2\<close>.  The later item \<open>b\<close> starts at \<open>x = 2\<close>, which is not beyond
  the far edge \<open>2 + 3\<close> of \<open>a\<close>, but it lies lower (\<open>y = 5\<close>), so the scan stops there
  and the item \<open>c\<close> behind it, which collides with \<open>a\<close>, is left where it is.
\<close>

theorem resolveCompactionCollision_scan_breaks_on_y:
  "resolveCompactionCollision 4
     [mkItem ''s'' 0 0 2 1 True, mkItem ''a'' 1 0 3 1 False,
      mkItem ''b'' 2 5 1 1 False, mkItem ''c'' 3 0 1 1 False]
     [0, 1, 2, 3] (Detached (mkItem ''a'' 1 0 3 1 False)) (0 + 2) AxisX
   = Some ([mkItem ''s'' 0 0 2 1 True, mkItem ''a'' 1 0 3 1 False,
            mkItem ''b'' 2 5 1 1 False, mkItem ''c'' 3 0 1 1 False],
           Detached (mkItem ''a'' 2 0 3 1 False))
   \<and> \<not> l_x (mkItem ''b'' 2 5 1 1 False)
         > l_x (mkItem ''a'' (1 + 1) 0 3 1 False) + l_w (mkItem ''a'' (1 + 1) 0 3 1 False)
   \<and> \<not> l_x (mkItem ''c'' 3 0 1 1 False)
         > l_x (mkItem ''a'' (1 + 1) 0 3 1 False) + l_w (mkItem ''a'' (1 + 1) 0 3 1 False)
   \<and> collides (mkItem ''a'' (1 + 1) 0 3 1 False) (mkItem ''c'' 3 0 1 1 False)"
  by (simp add: mkItem_def ref_map_def ref_get_def axis_set_def axis_get_def
       resolveCompactionCollision_scan.simps collides_def eval_nat_numeral)

section \<open>Compaction: what a push may change, and that it returns\<close>

text \<open>
  \<open>only_xy store store'\<close>: the two stores hold the same objects, which differ at
  most in \<open>x\<close> and \<open>y\<close>, and not at all when static.
\<close>

definition only_xy :: "layoutItem list \<Rightarrow> layoutItem list \<Rightarrow> bool" where
  "only_xy store store' \<longleftrightarrow>
     length store' = length store
     \<and> (\<forall>a<length store.
           (\<exists>x y. store' ! a = (store ! a)\<lparr>l_x := x, l_y := y\<rparr>)
         \<and> (static (store ! a) \<longrightarrow> store' ! a = store ! a))"

definition nonneg :: "layoutItem \<Rightarrow> bool" where
  "nonneg l \<longleftrightarrow> 0 \<le> l_x l \<and> 0 \<le> l_y l \<and> 0 \<le> l_w l \<and> 0 \<le> l_h l"

definition valid_ref :: "layoutItem list \<Rightarrow> itemRef \<Rightarrow> bool" where
  "valid_ref store r \<longleftrightarrow>
     (case r of Detached l \<Rightarrow> True | Stored a \<Rightarrow> a < length store \<and> \<not> static (store ! a))"

lemma only_xy_refl: "only_xy store store"
proof -
  have "\<And>l::layoutItem. \<exists>x y. l = l\<lparr>l_x := x, l_y := y\<rparr>"
  proof -
    fix l :: layoutItem
    have "l = l\<lparr>l_x := l_x l, l_y := l_y l\<rparr>" by simp
    then show "\<exists>x y. l = l\<lparr>l_x := x, l_y := y\<rparr>" by blast
  qed
  then show ?thesis by (simp add: only_xy_def)
qed

lemma only_xy_trans:
  assumes "only_xy s1 s2" "only_xy s2 s3"
  shows "only_xy s1 s3"
  unfolding only_xy_def
proof (intro conjI allI impI)
  show "length s3 = length s1" using assms by (simp add: only_xy_def)
next
  fix a assume a: "a < length s1"
  then have a2: "a < length s2" using assms(1) by (simp add: only_xy_def)
  from assms(1) a obtain x y where 1: "s2 ! a = (s1 ! a)\<lparr>l_x := x, l_y := y\<rparr>"
    unfolding only_xy_def by blast
  from assms(2) a2 obtain x' y' where 2: "s3 ! a = (s2 ! a)\<lparr>l_x := x', l_y := y'\<rparr>"
    unfolding only_xy_def by blast
  have "s3 ! a = (s1 ! a)\<lparr>l_x := x', l_y := y'\<rparr>" unfolding 2 1 by simp
  then show "\<exists>x y. s3 ! a = (s1 ! a)\<lparr>l_x := x, l_y := y\<rparr>" by blast
next
  fix a assume a: "a < length s1" and st: "static (s1 ! a)"
  then have a2: "a < length s2" using assms(1) by (simp add: only_xy_def)
  have e1: "s2 ! a = s1 ! a" using assms(1) a st unfolding only_xy_def by blast
  then have "static (s2 ! a)" using st by simp
  then have "s3 ! a = s2 ! a" using assms(2) a2 unfolding only_xy_def by blast
  then show "s3 ! a = s1 ! a" using e1 by simp
qed

lemma only_xy_length: "only_xy s1 s2 \<Longrightarrow> length s2 = length s1"
  by (simp add: only_xy_def)

lemma only_xy_fields:
  assumes "only_xy s1 s2" "a < length s1"
  shows "l_i (s2 ! a) = l_i (s1 ! a)" "l_w (s2 ! a) = l_w (s1 ! a)"
    "l_h (s2 ! a) = l_h (s1 ! a)" "static (s2 ! a) = static (s1 ! a)"
    "moved (s2 ! a) = moved (s1 ! a)"
proof -
  from assms obtain x y where e: "s2 ! a = (s1 ! a)\<lparr>l_x := x, l_y := y\<rparr>"
    unfolding only_xy_def by blast
  show "l_i (s2 ! a) = l_i (s1 ! a)" "l_w (s2 ! a) = l_w (s1 ! a)"
    "l_h (s2 ! a) = l_h (s1 ! a)" "static (s2 ! a) = static (s1 ! a)"
    "moved (s2 ! a) = moved (s1 ! a)"
    unfolding e by simp_all
qed

lemma only_xy_static: "only_xy s1 s2 \<Longrightarrow> a < length s1 \<Longrightarrow> static (s1 ! a) \<Longrightarrow> s2 ! a = s1 ! a"
  unfolding only_xy_def by blast

lemma only_xy_update:
  assumes "\<not> static (store ! a)"
  shows "only_xy store (store[a := axis_set ax v (store ! a)])"
  unfolding only_xy_def
proof (intro conjI allI impI)
  show "length (store[a := axis_set ax v (store ! a)]) = length store" by simp
next
  fix b assume b: "b < length store"
  show "\<exists>x y. store[a := axis_set ax v (store ! a)] ! b = (store ! b)\<lparr>l_x := x, l_y := y\<rparr>"
  proof (cases "b = a")
    case True
    have "axis_set ax v (store ! a) =
            (store ! a)\<lparr>l_x := l_x (axis_set ax v (store ! a)),
                          l_y := l_y (axis_set ax v (store ! a))\<rparr>"
      by (cases ax) (simp_all add: axis_set_def)
    then show ?thesis using True b by (metis nth_list_update_eq)
  next
    case False
    have "store ! b = (store ! b)\<lparr>l_x := l_x (store ! b), l_y := l_y (store ! b)\<rparr>" by simp
    then have "\<exists>x y. store ! b = (store ! b)\<lparr>l_x := x, l_y := y\<rparr>" by blast
    then show ?thesis using False by simp
  qed
next
  fix b assume b: "b < length store" and st: "static (store ! b)"
  then have "b \<noteq> a" using assms by auto
  then show "store[a := axis_set ax v (store ! a)] ! b = store ! b" by simp
qed

lemma ids_only_xy:
  assumes "only_xy s1 s2" "set layout \<subseteq> {..<length s1}"
  shows "map (\<lambda>a. l_i (s2 ! a)) layout = map (\<lambda>a. l_i (s1 ! a)) layout"
  using assms by (auto simp: only_xy_fields subset_iff)


lemma nonneg_axis_set: "nonneg l \<Longrightarrow> 0 \<le> v \<Longrightarrow> nonneg (axis_set ax v l)"
  by (cases ax) (simp_all add: nonneg_def axis_set_def)

lemma nonneg_bump: "nonneg l \<Longrightarrow> nonneg (axis_set ax (axis_get ax l + 1) l)"
  by (cases ax) (simp_all add: nonneg_def axis_set_def axis_get_def)

lemma nonneg_sizeProp: "nonneg l \<Longrightarrow> 0 \<le> sizeProp_get ax l"
  by (cases ax) (simp_all add: nonneg_def sizeProp_get_def)

lemma nonneg_store_update:
  "\<forall>l\<in>set store. nonneg l \<Longrightarrow> nonneg v \<Longrightarrow> \<forall>l\<in>set (store[a := v]). nonneg l"
  by (metis insertE set_update_subset_insert subsetD)

lemma nonneg_ref_get:
  "\<forall>l\<in>set store. nonneg l \<Longrightarrow> (\<forall>a. item = Stored a \<longrightarrow> a < length store) \<Longrightarrow>
   (\<forall>l. item = Detached l \<longrightarrow> nonneg l) \<Longrightarrow> nonneg (ref_get store item)"
  by (cases item) (simp_all add: ref_get_def)

lemma resolveCompactionCollision_frame:
  "valid_ref store item \<Longrightarrow> set layout \<subseteq> {..<length store} \<Longrightarrow>
   resolveCompactionCollision fuel store layout item m ax = Some (store', r) \<Longrightarrow>
   only_xy store store'
   \<and> ((\<forall>l\<in>set store. nonneg l) \<and> nonneg (ref_get store item) \<and> 0 \<le> m
        \<longrightarrow> (\<forall>l\<in>set store'. nonneg l))"
  and resolveCompactionCollision_scan_frame:
  "(\<forall>a. item = Stored a \<longrightarrow> a < length store) \<Longrightarrow> set layout \<subseteq> {..<length store} \<Longrightarrow>
   resolveCompactionCollision_scan n store layout item m ax i = Some store' \<Longrightarrow>
   only_xy store store'
   \<and> ((\<forall>l\<in>set store. nonneg l) \<and> nonneg (ref_get store item) \<and> 0 \<le> m
        \<longrightarrow> (\<forall>l\<in>set store'. nonneg l))"
proof (induction fuel store layout item m ax and n store layout item m ax i
       arbitrary: store' r and store'
       rule: resolveCompactionCollision_resolveCompactionCollision_scan.induct)
  case (1 store layout item moveToCoord ax)
  then show ?case by simp
next
  case (2 n store layout item moveToCoord ax)
  show ?case
  proof (cases item)
    case (Detached l)
    let ?l1 = "axis_set ax (axis_get ax l + 1) l"
    let ?k = "indexOf (map (\<lambda>a. l_i (store ! a)) layout) (l_i (ref_get store (Detached ?l1)))"
    have eq: "resolveCompactionCollision (Suc n) store layout item moveToCoord ax =
               (case resolveCompactionCollision_scan n store layout (Detached ?l1) moveToCoord ax
                       (nat (?k + 1)) of
                  None \<Rightarrow> None
                | Some s2 \<Rightarrow> Some (s2, Detached (axis_set ax moveToCoord ?l1)))"
      using Detached by (simp add: ref_map_def Let_def cong: option.case_cong)
    from "2.prems"(3) obtain s2 where
      s2: "resolveCompactionCollision_scan n store layout (Detached ?l1) moveToCoord ax
             (nat (?k + 1)) = Some s2"
      and res: "store' = s2"
      unfolding eq by (auto split: option.splits)
    have rm: "(store, Detached ?l1) =
                ref_map (\<lambda>l. axis_set ax (axis_get ax l + 1) l) store item"
      using Detached by (simp add: ref_map_def)
    have p1: "\<forall>a. Detached ?l1 = Stored a \<longrightarrow> a < length store" by simp
    note ih = "2.IH"[OF rm refl p1 "2.prems"(2) s2]
    have "nonneg (ref_get store item) \<Longrightarrow> nonneg (ref_get store (Detached ?l1))"
      using Detached by (simp add: ref_get_def nonneg_bump)
    with ih res show ?thesis by blast
  next
    case (Stored a)
    then have a: "a < length store" "\<not> static (store ! a)"
      using "2.prems"(1) by (simp_all add: valid_ref_def)
    let ?s1 = "store[a := axis_set ax (axis_get ax (store ! a) + 1) (store ! a)]"
    let ?k = "indexOf (map (\<lambda>b. l_i (?s1 ! b)) layout) (l_i (ref_get ?s1 (Stored a)))"
    have eq: "resolveCompactionCollision (Suc n) store layout item moveToCoord ax =
               (case resolveCompactionCollision_scan n ?s1 layout (Stored a) moveToCoord ax
                       (nat (?k + 1)) of
                  None \<Rightarrow> None
                | Some s2 \<Rightarrow> Some (s2[a := axis_set ax moveToCoord (s2 ! a)], Stored a))"
      using Stored by (simp add: ref_map_def Let_def cong: option.case_cong)
    from "2.prems"(3) obtain s2 where
      s2: "resolveCompactionCollision_scan n ?s1 layout (Stored a) moveToCoord ax
             (nat (?k + 1)) = Some s2"
      and res: "store' = s2[a := axis_set ax moveToCoord (s2 ! a)]"
      unfolding eq by (auto split: option.splits)
    have rm: "(?s1, Stored a) =
                ref_map (\<lambda>l. axis_set ax (axis_get ax l + 1) l) store item"
      using Stored by (simp add: ref_map_def)
    have sub1: "set layout \<subseteq> {..<length ?s1}" using "2.prems"(2) by simp
    have p1: "\<forall>b. Stored a = Stored b \<longrightarrow> b < length ?s1" using a(1) by simp
    note ih = "2.IH"[OF rm refl p1 sub1 s2]
    have o1: "only_xy store ?s1" using a(2) by (rule only_xy_update)
    have o12: "only_xy store s2" using o1 ih by (blast intro: only_xy_trans)
    have len2: "length s2 = length store" using o12 by (rule only_xy_length)
    have "static (s2 ! a) = static (store ! a)" using o12 a(1) by (rule only_xy_fields)
    then have "\<not> static (s2 ! a)" using a(2) by simp
    then have o3: "only_xy s2 store'" unfolding res by (rule only_xy_update)
    have O: "only_xy store store'" using o12 o3 by (rule only_xy_trans)
    have N: "(\<forall>l\<in>set store'. nonneg l)"
      if h: "(\<forall>l\<in>set store. nonneg l)" "nonneg (ref_get store item)" "0 \<le> moveToCoord"
    proof -
      have na: "nonneg (store ! a)" using h(1) a(1) by simp
      have n1: "\<forall>l\<in>set ?s1. nonneg l"
        using h(1) nonneg_bump[OF na] by (rule nonneg_store_update)
      have "nonneg (ref_get ?s1 (Stored a))"
        using a(1) nonneg_bump[OF na] by (simp add: ref_get_def)
      with ih n1 h(3) have n2: "\<forall>l\<in>set s2. nonneg l" by blast
      then have "nonneg (s2 ! a)" using a(1) len2 by simp
      then have "nonneg (axis_set ax moveToCoord (s2 ! a))" using h(3) by (rule nonneg_axis_set)
      with n2 show ?thesis unfolding res by (rule nonneg_store_update)
    qed
    from O N show ?thesis by blast
  qed
next
  case (3 n store layout item moveToCoord ax i)
  note step = resolveCompactionCollision_scan.simps[of n store layout item moveToCoord ax i]
  show ?case
  proof (cases "i < length layout")
    case False
    with "3.prems"(3) have "store' = store" by (simp add: step)
    then show ?thesis by (simp add: only_xy_refl)
  next
    case i: True
    let ?o = "store ! (layout ! i)"
    let ?it = "ref_get store item"
    have li: "layout ! i < length store" using i "3.prems"(2) by (auto simp: subset_iff)
    show ?thesis
    proof (cases "static ?o")
      case True
      with i "3.prems"(3) have
        "resolveCompactionCollision_scan n store layout item moveToCoord ax (i + 1) = Some store'"
        by (simp add: step)
      from "3.IH"(1)[OF i refl True "3.prems"(1,2) this] show ?thesis .
    next
      case ns: False
      show ?thesis
      proof (cases "l_y ?o > l_y ?it + l_h ?it")
        case True
        with i ns "3.prems"(3) have "store' = store" by (simp add: step)
        then show ?thesis by (simp add: only_xy_refl)
      next
        case nb: False
        show ?thesis
        proof (cases "collides ?it ?o")
          case False
          with i ns nb "3.prems"(3) have
            "resolveCompactionCollision_scan n store layout item moveToCoord ax (i + 1)
               = Some store'"
            by (simp add: step)
          from "3.IH"(4)[OF i refl ns nb False "3.prems"(1,2) this] show ?thesis .
        next
          case co: True
          from i ns nb co "3.prems"(3) obtain s2 r2 where
            n1: "resolveCompactionCollision n store layout (Stored (layout ! i))
                   (moveToCoord + sizeProp_get ax ?it) ax = Some (s2, r2)"
            and n2: "resolveCompactionCollision_scan n s2 layout item moveToCoord ax (i + 1)
                   = Some store'"
            by (auto simp: step split: option.splits)
          have vr: "valid_ref store (Stored (layout ! i))"
            using li ns by (simp add: valid_ref_def)
          note ih1 = "3.IH"(2)[OF i refl ns nb co vr "3.prems"(2) n1]
          then have o1: "only_xy store s2" by blast
          have len2: "length s2 = length store" using o1 by (rule only_xy_length)
          have p1: "\<forall>a. item = Stored a \<longrightarrow> a < length s2" using "3.prems"(1) len2 by simp
          have p2: "set layout \<subseteq> {..<length s2}" using "3.prems"(2) len2 by simp
          note ih2 = "3.IH"(3)[OF i refl ns nb co n1 refl p1 p2 n2]
          then have o2: "only_xy s2 store'" by blast
          have O: "only_xy store store'" using o1 o2 by (rule only_xy_trans)
          have N: "(\<forall>l\<in>set store'. nonneg l)"
            if h: "(\<forall>l\<in>set store. nonneg l)" "nonneg ?it" "0 \<le> moveToCoord"
          proof -
            have "nonneg (ref_get store (Stored (layout ! i)))"
              using h(1) li by (simp add: ref_get_def)
            moreover have "0 \<le> moveToCoord + sizeProp_get ax ?it"
              using h(2,3) nonneg_sizeProp[of ?it ax] by simp
            ultimately have n2': "\<forall>l\<in>set s2. nonneg l" using ih1 h(1) by blast
            have "nonneg (ref_get s2 item)"
            proof (cases item)
              case (Detached l)
              then show ?thesis using h(2) by (simp add: ref_get_def)
            next
              case (Stored a)
              then show ?thesis using n2' p1 by (simp add: ref_get_def)
            qed
            with ih2 n2' h(3) show ?thesis by blast
          qed
          from O N show ?thesis by blast
        qed
      qed
    qed
  qed
qed


lemma indexOf_ge: "- 1 \<le> indexOf xs v"
  by (induction xs) (auto simp: Let_def)

lemma indexOf_nth: "distinct xs \<Longrightarrow> i < length xs \<Longrightarrow> indexOf xs (xs ! i) = int i"
proof (induction xs arbitrary: i)
  case Nil
  then show ?case by simp
next
  case (Cons u us)
  show ?case
  proof (cases i)
    case 0
    then show ?thesis by simp
  next
    case (Suc j)
    with Cons.prems have j: "j < length us" and d: "distinct us" and nu: "u \<noteq> us ! j"
      by auto
    from Cons.IH[OF d j] have "indexOf us (us ! j) = int j" .
    with Suc nu show ?thesis by (simp add: Let_def)
  qed
qed

lemma l_i_axis_set [simp]: "l_i (axis_set ax v l) = l_i l"
  by (cases ax) (simp_all add: axis_set_def)

lemma resolveCompactionCollision_total:
  "distinct (map (\<lambda>a. l_i (store ! a)) layout) \<Longrightarrow> set layout \<subseteq> {..<length store} \<Longrightarrow>
   valid_ref store item \<Longrightarrow>
   length layout + 1 \<le>
     fuel + nat (indexOf (map (\<lambda>a. l_i (store ! a)) layout) (l_i (ref_get store item)) + 1) \<Longrightarrow>
   \<exists>res. resolveCompactionCollision fuel store layout item m ax = Some res"
  and resolveCompactionCollision_scan_total:
  "distinct (map (\<lambda>a. l_i (store ! a)) layout) \<Longrightarrow> set layout \<subseteq> {..<length store} \<Longrightarrow>
   (\<forall>a. item = Stored a \<longrightarrow> a < length store) \<Longrightarrow>
   length layout \<le> n + i \<Longrightarrow>
   \<exists>store'. resolveCompactionCollision_scan n store layout item m ax i = Some store'"
proof (induction fuel store layout item m ax and n store layout item m ax i
       rule: resolveCompactionCollision_resolveCompactionCollision_scan.induct)
  case (1 store layout item moveToCoord ax)
  have "indexOf (map (\<lambda>a. l_i (store ! a)) layout) (l_i (ref_get store item)) + 1
          \<le> int (length layout)"
  proof -
    have "\<And>xs (v::string). indexOf xs v < int (length xs)"
    proof -
      fix xs :: "string list" and v
      show "indexOf xs v < int (length xs)" by (induction xs) (auto simp: Let_def)
    qed
    from this[of "map (\<lambda>a. l_i (store ! a)) layout" "l_i (ref_get store item)"]
    show ?thesis by simp
  qed
  with "1.prems"(4) show ?case by simp
next
  case (2 n store layout item moveToCoord ax)
  obtain s1 item1 where rm: "(s1, item1) =
      ref_map (\<lambda>l. axis_set ax (axis_get ax l + 1) l) store item"
    by (metis surj_pair)
  have o1: "only_xy store s1"
  proof (cases item)
    case (Detached l)
    with rm show ?thesis by (simp add: ref_map_def only_xy_refl)
  next
    case (Stored a)
    with "2.prems"(3) have "\<not> static (store ! a)" by (simp add: valid_ref_def)
    from only_xy_update[OF this] rm Stored show ?thesis by (simp add: ref_map_def)
  qed
  have len1: "length s1 = length store" using o1 by (rule only_xy_length)
  have ids1: "map (\<lambda>a. l_i (s1 ! a)) layout = map (\<lambda>a. l_i (store ! a)) layout"
    using o1 "2.prems"(2) by (rule ids_only_xy)
  have id1: "l_i (ref_get s1 item1) = l_i (ref_get store item)"
  proof (cases item)
    case (Detached l)
    with rm show ?thesis by (simp add: ref_map_def ref_get_def)
  next
    case (Stored a)
    with "2.prems"(3) have "a < length store" by (simp add: valid_ref_def)
    with rm Stored show ?thesis by (simp add: ref_map_def ref_get_def)
  qed
  have st1: "\<forall>a. item1 = Stored a \<longrightarrow> a < length s1"
  proof (cases item)
    case (Detached l)
    with rm show ?thesis by (simp add: ref_map_def)
  next
    case (Stored a)
    with "2.prems"(3) have "a < length store" by (simp add: valid_ref_def)
    with rm Stored show ?thesis by (simp add: ref_map_def)
  qed
  let ?k = "indexOf (map (\<lambda>a. l_i (s1 ! a)) layout) (l_i (ref_get s1 item1))"
  have d1: "distinct (map (\<lambda>a. l_i (s1 ! a)) layout)"
    unfolding ids1 by (rule "2.prems"(1))
  have sub1: "set layout \<subseteq> {..<length s1}" using "2.prems"(2) len1 by simp
  have fuel: "length layout \<le> n + nat (?k + 1)"
    using "2.prems"(4) unfolding ids1 id1 by simp
  from "2.IH"[OF rm refl d1 sub1 st1 fuel] obtain s2 where
    "resolveCompactionCollision_scan n s1 layout item1 moveToCoord ax (nat (?k + 1)) = Some s2"
    by blast
  then show ?case using rm[symmetric] by (simp add: Let_def)
next
  case (3 n store layout item moveToCoord ax i)
  note step = resolveCompactionCollision_scan.simps[of n store layout item moveToCoord ax i]
  show ?case
  proof (cases "i < length layout")
    case False
    then show ?thesis by (simp add: step)
  next
    case i: True
    let ?o = "store ! (layout ! i)"
    let ?it = "ref_get store item"
    have li: "layout ! i < length store" using i "3.prems"(2) by (auto simp: subset_iff)
    have fuel': "length layout \<le> n + (i + 1)" using "3.prems"(4) by simp
    show ?thesis
    proof (cases "static ?o")
      case True
      from "3.IH"(1)[OF i refl True "3.prems"(1,2,3) fuel'] True i
      show ?thesis by (simp add: step)
    next
      case ns: False
      show ?thesis
      proof (cases "l_y ?o > l_y ?it + l_h ?it")
        case True
        with i ns show ?thesis by (simp add: step)
      next
        case nb: False
        show ?thesis
        proof (cases "collides ?it ?o")
          case False
          from "3.IH"(4)[OF i refl ns nb False "3.prems"(1,2,3) fuel'] False i ns nb
          show ?thesis by (simp add: step)
        next
          case co: True
          have vr: "valid_ref store (Stored (layout ! i))"
            using li ns by (simp add: valid_ref_def)
          have "indexOf (map (\<lambda>a. l_i (store ! a)) layout)
                  (l_i (ref_get store (Stored (layout ! i)))) = int i"
            using indexOf_nth[OF "3.prems"(1), of i] i by (simp add: ref_get_def)
          then have f1: "length layout + 1 \<le> n +
                nat (indexOf (map (\<lambda>a. l_i (store ! a)) layout)
                  (l_i (ref_get store (Stored (layout ! i)))) + 1)"
            using "3.prems"(4) by simp
          from "3.IH"(2)[OF i refl ns nb co "3.prems"(1,2) vr f1] obtain s2 r2 where
            n1: "resolveCompactionCollision n store layout (Stored (layout ! i))
                   (moveToCoord + sizeProp_get ax ?it) ax = Some (s2, r2)"
            by fastforce
          from resolveCompactionCollision_frame[OF vr "3.prems"(2) n1]
          have o1: "only_xy store s2" by blast
          have len2: "length s2 = length store" using o1 by (rule only_xy_length)
          have ids2: "map (\<lambda>a. l_i (s2 ! a)) layout = map (\<lambda>a. l_i (store ! a)) layout"
            using o1 "3.prems"(2) by (rule ids_only_xy)
          have d2: "distinct (map (\<lambda>a. l_i (s2 ! a)) layout)"
            unfolding ids2 by (rule "3.prems"(1))
          have p1: "\<forall>a. item = Stored a \<longrightarrow> a < length s2" using "3.prems"(3) len2 by simp
          have p2: "set layout \<subseteq> {..<length s2}" using "3.prems"(2) len2 by simp
          from "3.IH"(3)[OF i refl ns nb co n1 refl d2 p2 p1 fuel'] obtain s3 where
            "resolveCompactionCollision_scan n s2 layout item moveToCoord ax (i + 1) = Some s3"
            by blast
          with i ns nb co n1 show ?thesis by (simp add: step)
        qed
      qed
    qed
  qed
qed

lemma moveUp_frame:
  "\<exists>y. moveUp cw l = l\<lparr>l_y := y\<rparr> \<and> y \<le> l_y l \<and> (0 \<le> l_y l \<longrightarrow> 0 \<le> y)"
proof (induction cw l rule: moveUp.induct)
  case (1 cw l)
  show ?case
  proof (cases "l_y l > 0 \<and> getFirstCollision cw l = None")
    case False
    then have "moveUp cw l = l" by (subst moveUp.simps) auto
    moreover have "l = l\<lparr>l_y := l_y l\<rparr>" by simp
    ultimately show ?thesis by (intro exI[of _ "l_y l"]) simp
  next
    case True
    then have e: "moveUp cw l = moveUp cw (l\<lparr>l_y := l_y l - 1\<rparr>)"
      by (subst moveUp.simps) simp
    from 1[OF True] obtain y where
      y: "moveUp cw (l\<lparr>l_y := l_y l - 1\<rparr>) = l\<lparr>l_y := l_y l - 1\<rparr>\<lparr>l_y := y\<rparr>"
        "y \<le> l_y l - 1" "0 \<le> l_y l - 1 \<longrightarrow> 0 \<le> y"
      by auto
    have "moveUp cw l = l\<lparr>l_y := y\<rparr>" unfolding e y(1) by simp
    with y(2,3) True show ?thesis by (intro exI[of _ y]) auto
  qed
qed

lemma moveUp_stop: "l_y (moveUp cw l) \<le> 0 \<or> getFirstCollision cw (moveUp cw l) \<noteq> None"
proof (induction cw l rule: moveUp.induct)
  case (1 cw l)
  show ?case
  proof (cases "l_y l > 0 \<and> getFirstCollision cw l = None")
    case False
    then have "moveUp cw l = l" by (subst moveUp.simps) auto
    with False show ?thesis by auto
  next
    case True
    then have e: "moveUp cw l = moveUp cw (l\<lparr>l_y := l_y l - 1\<rparr>)"
      by (subst moveUp.simps) simp
    from 1[OF True] show ?thesis unfolding e .
  qed
qed

lemma moveUp_one:
  assumes "l_y l > 0" "getFirstCollision cw l = None"
    "getFirstCollision cw (l\<lparr>l_y := l_y l - 1\<rparr>) \<noteq> None"
  shows "moveUp cw l = l\<lparr>l_y := l_y l - 1\<rparr>"
proof -
  have "moveUp cw l = moveUp cw (l\<lparr>l_y := l_y l - 1\<rparr>)"
    using assms(1,2) by (subst moveUp.simps) simp
  also have "\<dots> = l\<lparr>l_y := l_y l - 1\<rparr>"
    using assms(3) by (subst moveUp.simps) auto
  finally show ?thesis .
qed

lemma moveUp_zero: "l_y l \<le> 0 \<Longrightarrow> moveUp cw l = l"
  by (subst moveUp.simps) simp

lemma moveLeft_frame:
  "\<exists>x. moveLeft cw l = l\<lparr>l_x := x\<rparr> \<and> x \<le> l_x l \<and> (0 \<le> l_x l \<longrightarrow> 0 \<le> x)"
proof (induction cw l rule: moveLeft.induct)
  case (1 cw l)
  show ?case
  proof (cases "l_x l > 0 \<and> getFirstCollision cw l = None")
    case False
    then have "moveLeft cw l = l" by (subst moveLeft.simps) auto
    moreover have "l = l\<lparr>l_x := l_x l\<rparr>" by simp
    ultimately show ?thesis by (intro exI[of _ "l_x l"]) simp
  next
    case True
    then have e: "moveLeft cw l = moveLeft cw (l\<lparr>l_x := l_x l - 1\<rparr>)"
      by (subst moveLeft.simps) simp
    from 1[OF True] obtain x where
      x: "moveLeft cw (l\<lparr>l_x := l_x l - 1\<rparr>) = l\<lparr>l_x := l_x l - 1\<rparr>\<lparr>l_x := x\<rparr>"
        "x \<le> l_x l - 1" "0 \<le> l_x l - 1 \<longrightarrow> 0 \<le> x"
      by auto
    have "moveLeft cw l = l\<lparr>l_x := x\<rparr>" unfolding e x(1) by simp
    with x(2,3) True show ?thesis by (intro exI[of _ x]) auto
  qed
qed

lemma moveLeft_stop: "l_x (moveLeft cw l) \<le> 0 \<or> getFirstCollision cw (moveLeft cw l) \<noteq> None"
proof (induction cw l rule: moveLeft.induct)
  case (1 cw l)
  show ?case
  proof (cases "l_x l > 0 \<and> getFirstCollision cw l = None")
    case False
    then have "moveLeft cw l = l" by (subst moveLeft.simps) auto
    with False show ?thesis by auto
  next
    case True
    then have e: "moveLeft cw l = moveLeft cw (l\<lparr>l_x := l_x l - 1\<rparr>)"
      by (subst moveLeft.simps) simp
    from 1[OF True] show ?thesis unfolding e .
  qed
qed

lemma moveLeft_one:
  assumes "l_x l > 0" "getFirstCollision cw l = None"
    "getFirstCollision cw (l\<lparr>l_x := l_x l - 1\<rparr>) \<noteq> None"
  shows "moveLeft cw l = l\<lparr>l_x := l_x l - 1\<rparr>"
proof -
  have "moveLeft cw l = moveLeft cw (l\<lparr>l_x := l_x l - 1\<rparr>)"
    using assms(1,2) by (subst moveLeft.simps) simp
  also have "\<dots> = l\<lparr>l_x := l_x l - 1\<rparr>"
    using assms(3) by (subst moveLeft.simps) auto
  finally show ?thesis .
qed

lemma moveLeft_zero: "l_x l \<le> 0 \<Longrightarrow> moveLeft cw l = l"
  by (subst moveLeft.simps) simp


definition axis_coord :: "compactType \<Rightarrow> layoutItem \<Rightarrow> int" where
  "axis_coord ct l = (case ct of Vertical \<Rightarrow> l_y l | Horizontal \<Rightarrow> l_x l | NoCompaction \<Rightarrow> 0)"

definition pulled :: "compactType \<Rightarrow> layoutItem \<Rightarrow> layoutItem" where
  "pulled ct l =
     (case ct of Vertical \<Rightarrow> l\<lparr>l_y := l_y l - 1\<rparr>
               | Horizontal \<Rightarrow> l\<lparr>l_x := l_x l - 1\<rparr>
               | NoCompaction \<Rightarrow> l)"

definition blocked :: "compactType \<Rightarrow> layoutItem list \<Rightarrow> layoutItem \<Rightarrow> bool" where
  "blocked ct cw l \<longleftrightarrow> axis_coord ct l \<le> 0 \<or> (\<exists>c\<in>set cw. collides c (pulled ct l))"

definition pushed ::
  "compactType \<Rightarrow> int \<Rightarrow> layoutItem list \<Rightarrow> layoutItem \<Rightarrow> layoutItem \<Rightarrow> layoutItem" where
  "pushed ct cols cw c l =
     (let l1 = (if ct = Horizontal then l\<lparr>l_x := l_x c + l_w c\<rparr>
                else l\<lparr>l_y := l_y c + l_h c\<rparr>)
      in if ct = Horizontal \<and> l_x l1 + l_w l1 > cols
         then moveLeft cw (l1\<lparr>l_x := cols - l_w l1, l_y := l_y l1 + 1\<rparr>)
         else l1)"

lemma resolveLoop_None:
  "getFirstCollision cw l = None \<Longrightarrow>
   resolveLoop fuel cw store lay l ct cols ao = Some (store, l)"
  by (subst resolveLoop.simps) simp

lemma resolveLoop_overlap:
  "ct = NoCompaction \<and> ao \<Longrightarrow> resolveLoop fuel cw store lay l ct cols ao = Some (store, l)"
  by (subst resolveLoop.simps) (simp split: option.splits)

lemma resolveLoop_push:
  assumes "getFirstCollision cw l = Some c" "\<not> (ct = NoCompaction \<and> ao)"
  shows "resolveLoop fuel cw store lay l ct cols ao =
     (case resolveCompactionCollision fuel store lay (Detached l)
             (if ct = Horizontal then l_x c + l_w c else l_y c + l_h c)
             (if ct = Horizontal then AxisX else AxisY) of
        None \<Rightarrow> None
      | Some (s1, r) \<Rightarrow> resolveLoop fuel cw s1 lay (pushed ct cols cw c l) ct cols ao)"
proof (cases "resolveCompactionCollision fuel store lay (Detached l)
             (if ct = Horizontal then l_x c + l_w c else l_y c + l_h c)
             (if ct = Horizontal then AxisX else AxisY)")
  case None
  then show ?thesis using assms by (subst resolveLoop.simps) (auto split: if_splits)
next
  case (Some p)
  obtain s1 r where p: "p = (s1, r)" by (cases p)
  from resolveCompactionCollision_Detached[OF Some[unfolded p]]
  have r: "r = Detached (axis_set (if ct = Horizontal then AxisX else AxisY)
                 (if ct = Horizontal then l_x c + l_w c else l_y c + l_h c) l)" .
  show ?thesis
    using assms Some unfolding p r
    by (subst resolveLoop.simps)
       (auto simp: ref_get_def axis_set_def pushed_def Let_def split: if_splits)
qed


lemma resolveLoop_induct2 [consumes 0, case_names step]:
  assumes step: "\<And>fuel cw store lay l ct cols ao.
     (\<And>c s1 r. getFirstCollision cw l = Some c \<Longrightarrow> \<not> (ct = NoCompaction \<and> ao) \<Longrightarrow>
        resolveCompactionCollision fuel store lay (Detached l)
          (if ct = Horizontal then l_x c + l_w c else l_y c + l_h c)
          (if ct = Horizontal then AxisX else AxisY) = Some (s1, r) \<Longrightarrow>
        P fuel cw s1 lay (pushed ct cols cw c l) ct cols ao) \<Longrightarrow>
     P fuel cw store lay l ct cols ao"
  shows "P fuel cw store lay l ct cols ao"
proof (induction fuel cw store lay l ct cols ao rule: resolveLoop.induct)
  case (1 fuel cw store lay l ct cols ao)
  show ?case
  proof (rule step)
    fix c s1 r
    assume gfc: "getFirstCollision cw l = Some c" and nov: "\<not> (ct = NoCompaction \<and> ao)"
      and rcc: "resolveCompactionCollision fuel store lay (Detached l)
          (if ct = Horizontal then l_x c + l_w c else l_y c + l_h c)
          (if ct = Horizontal then AxisX else AxisY) = Some (s1, r)"
    have rcc': "(if ct = Horizontal
          then resolveCompactionCollision fuel store lay (Detached l) (l_x c + l_w c) AxisX
          else resolveCompactionCollision fuel store lay (Detached l) (l_y c + l_h c) AxisY)
         = Some (s1, r)"
      using rcc by (simp split: if_splits)
    have r: "r = Detached (axis_set (if ct = Horizontal then AxisX else AxisY)
                 (if ct = Horizontal then l_x c + l_w c else l_y c + l_h c) l)"
      using resolveCompactionCollision_Detached[OF rcc] .
    have xb: "(if ct = Horizontal \<and> cols < l_x (ref_get s1 r) + l_w (ref_get s1 r)
               then moveLeft cw ((ref_get s1 r)\<lparr>l_x := cols - l_w (ref_get s1 r),
                                               l_y := l_y (ref_get s1 r) + 1\<rparr>)
               else ref_get s1 r) = pushed ct cols cw c l"
      unfolding r by (simp add: ref_get_def axis_set_def pushed_def Let_def)
    from "1.IH"[OF gfc nov rcc' refl refl refl, unfolded xb]
    show "P fuel cw s1 lay (pushed ct cols cw c l) ct cols ao" .
  qed
qed


lemma frame_xy_trans:
  fixes l :: layoutItem
  assumes "\<exists>x y. l2 = l\<lparr>l_x := x, l_y := y\<rparr>" "\<exists>x y. l3 = l2\<lparr>l_x := x, l_y := y\<rparr>"
  shows "\<exists>x y. l3 = l\<lparr>l_x := x, l_y := y\<rparr>"
proof -
  from assms(1) obtain x y where 1: "l2 = l\<lparr>l_x := x, l_y := y\<rparr>" by blast
  from assms(2) obtain x' y' where 2: "l3 = l2\<lparr>l_x := x', l_y := y'\<rparr>" by blast
  have "l3 = l\<lparr>l_x := x', l_y := y'\<rparr>" unfolding 2 1 by simp
  then show ?thesis by blast
qed

lemma frame_xy_self: "\<exists>x y. (l::layoutItem) = l\<lparr>l_x := x, l_y := y\<rparr>"
proof -
  have "l = l\<lparr>l_x := l_x l, l_y := l_y l\<rparr>" by simp
  then show ?thesis by blast
qed

lemma frame_xy_fields:
  assumes "\<exists>x y. l' = (l::layoutItem)\<lparr>l_x := x, l_y := y\<rparr>"
  shows "l_i l' = l_i l" "l_w l' = l_w l" "l_h l' = l_h l" "static l' = static l"
    "moved l' = moved l"
proof -
  from assms obtain x y where e: "l' = l\<lparr>l_x := x, l_y := y\<rparr>" by blast
  show "l_i l' = l_i l" "l_w l' = l_w l" "l_h l' = l_h l" "static l' = static l"
    "moved l' = moved l"
    unfolding e by simp_all
qed

lemma pushed_frame: "\<exists>x y. pushed ct cols cw c l = l\<lparr>l_x := x, l_y := y\<rparr>"
proof (cases "ct = Horizontal")
  case False
  have "l\<lparr>l_y := l_y c + l_h c\<rparr> = l\<lparr>l_x := l_x l, l_y := l_y c + l_h c\<rparr>" by simp
  then show ?thesis using False unfolding pushed_def Let_def by (simp only: if_False simp_thms) blast
next
  case H: True
  show ?thesis
  proof (cases "l_x c + l_w c + l_w l > cols")
    case False
    have "l\<lparr>l_x := l_x c + l_w c\<rparr> = l\<lparr>l_x := l_x c + l_w c, l_y := l_y l\<rparr>" by simp
    moreover have "pushed ct cols cw c l = l\<lparr>l_x := l_x c + l_w c\<rparr>"
      using H False by (simp add: pushed_def Let_def)
    ultimately show ?thesis by metis
  next
    case True
    let ?l1 = "l\<lparr>l_x := cols - l_w l, l_y := l_y l + 1\<rparr>"
    have e: "pushed ct cols cw c l = moveLeft cw ?l1"
      using H True by (simp add: pushed_def Let_def)
    from moveLeft_frame[of cw ?l1] obtain x where "moveLeft cw ?l1 = ?l1\<lparr>l_x := x\<rparr>" by blast
    then have "pushed ct cols cw c l = l\<lparr>l_x := x, l_y := l_y l + 1\<rparr>" unfolding e by simp
    then show ?thesis by blast
  qed
qed

lemma pushed_nonneg:
  assumes "nonneg l" "nonneg c" "ct = Horizontal \<longrightarrow> l_w l \<le> cols"
  shows "nonneg (pushed ct cols cw c l)"
proof (cases "ct = Horizontal")
  case False
  then show ?thesis using assms by (simp add: pushed_def Let_def nonneg_def)
next
  case H: True
  show ?thesis
  proof (cases "l_x c + l_w c + l_w l > cols")
    case False
    then show ?thesis using H assms by (simp add: pushed_def Let_def nonneg_def)
  next
    case True
    let ?l1 = "l\<lparr>l_x := cols - l_w l, l_y := l_y l + 1\<rparr>"
    have e: "pushed ct cols cw c l = moveLeft cw ?l1"
      using H True by (simp add: pushed_def Let_def)
    from moveLeft_frame[of cw ?l1] obtain x where
      x: "moveLeft cw ?l1 = ?l1\<lparr>l_x := x\<rparr>" "0 \<le> l_x ?l1 \<longrightarrow> 0 \<le> x" by blast
    have "0 \<le> l_x ?l1" using assms(3) H by simp
    with x(2) have "0 \<le> x" by simp
    then show ?thesis unfolding e x(1) using assms(1) by (simp add: nonneg_def)
  qed
qed

lemma pushed_blocked:
  assumes "c \<in> set cw" "collides c l" "1 \<le> l_w c" "1 \<le> l_h c" "1 \<le> l_w l" "1 \<le> l_h l"
  shows "blocked ct cw (pushed ct cols cw c l)
       \<or> (\<exists>c'\<in>set cw. collides c' (pushed ct cols cw c l))"
proof (cases ct)
  case NoCompaction
  then show ?thesis by (simp add: blocked_def axis_coord_def)
next
  case Vertical
  then have e: "pushed ct cols cw c l = l\<lparr>l_y := l_y c + l_h c\<rparr>"
    by (simp add: pushed_def Let_def)
  have "collides c (pulled ct (l\<lparr>l_y := l_y c + l_h c\<rparr>))"
    using assms(2-) Vertical by (simp add: pulled_def collides_def split: if_splits)
  then show ?thesis unfolding e blocked_def using assms(1) by blast
next
  case H: Horizontal
  show ?thesis
  proof (cases "l_x c + l_w c + l_w l > cols")
    case False
    then have e: "pushed ct cols cw c l = l\<lparr>l_x := l_x c + l_w c\<rparr>"
      using H by (simp add: pushed_def Let_def)
    have "collides c (pulled ct (l\<lparr>l_x := l_x c + l_w c\<rparr>))"
      using assms(2-) H by (simp add: pulled_def collides_def split: if_splits)
    then show ?thesis unfolding e blocked_def using assms(1) by blast
  next
    case True
    let ?l1 = "l\<lparr>l_x := cols - l_w l, l_y := l_y l + 1\<rparr>"
    have e: "pushed ct cols cw c l = moveLeft cw ?l1"
      using H True by (simp add: pushed_def Let_def)
    from moveLeft_stop[of cw ?l1] show ?thesis
    proof
      assume "l_x (moveLeft cw ?l1) \<le> 0"
      then show ?thesis unfolding e using H by (simp add: blocked_def axis_coord_def)
    next
      assume "getFirstCollision cw (moveLeft cw ?l1) \<noteq> None"
      then show ?thesis unfolding e by (auto dest: getFirstCollision_Some)
    qed
  qed
qed

lemma pushed_fits:
  assumes "ct = Horizontal"
  shows "l_x (pushed ct cols cw c l) \<le> 0
       \<or> l_x (pushed ct cols cw c l) + l_w (pushed ct cols cw c l) \<le> cols
       \<or> (\<exists>c'\<in>set cw. collides c' (pushed ct cols cw c l))"
proof (cases "l_x c + l_w c + l_w l > cols")
  case False
  then show ?thesis using assms by (simp add: pushed_def Let_def)
next
  case True
  let ?l1 = "l\<lparr>l_x := cols - l_w l, l_y := l_y l + 1\<rparr>"
  have e: "pushed ct cols cw c l = moveLeft cw ?l1"
    using assms True by (simp add: pushed_def Let_def)
  from moveLeft_stop[of cw ?l1] show ?thesis
    unfolding e by (auto dest: getFirstCollision_Some)
qed


lemma resolveLoop_props:
  "resolveLoop fuel cw store lay l ct cols ao = Some (store', l') \<Longrightarrow>
   set lay \<subseteq> {..<length store} \<Longrightarrow>
     only_xy store store'
   \<and> (\<exists>x y. l' = l\<lparr>l_x := x, l_y := y\<rparr>)
   \<and> (\<not> (ct = NoCompaction \<and> ao) \<longrightarrow> getFirstCollision cw l' = None)
   \<and> ((\<forall>c\<in>set store. nonneg c) \<and> (\<forall>c\<in>set cw. nonneg c) \<and> nonneg l
        \<and> (ct = Horizontal \<longrightarrow> l_w l \<le> cols)
        \<longrightarrow> (\<forall>c\<in>set store'. nonneg c) \<and> nonneg l')
   \<and> ((\<forall>c\<in>set cw. 1 \<le> l_w c \<and> 1 \<le> l_h c) \<and> 1 \<le> l_w l \<and> 1 \<le> l_h l
        \<and> (blocked ct cw l \<or> (\<exists>c\<in>set cw. collides c l))
        \<longrightarrow> blocked ct cw l')
   \<and> (ct = Horizontal \<and> (l_x l \<le> 0 \<or> l_x l + l_w l \<le> cols \<or> (\<exists>c\<in>set cw. collides c l))
        \<longrightarrow> l_x l' \<le> 0 \<or> l_x l' + l_w l' \<le> cols)"
proof (induction fuel cw store lay l ct cols ao arbitrary: store' l'
       rule: resolveLoop_induct2)
  case (step fuel cw store lay l ct cols ao)
  show ?case
  proof (cases "getFirstCollision cw l")
    case None
    then have "resolveLoop fuel cw store lay l ct cols ao = Some (store, l)"
      by (rule resolveLoop_None)
    with step.prems(1) have e: "store' = store" "l' = l" by simp_all
    have nc: "\<not> (\<exists>c\<in>set cw. collides c l)" using None by (simp add: getFirstCollision_None)
    show ?thesis unfolding e using None nc
      by (simp add: only_xy_refl frame_xy_self)
  next
    case (Some c)
    then have c: "c \<in> set cw" "collides c l" by (auto dest: getFirstCollision_Some)
    show ?thesis
    proof (cases "ct = NoCompaction \<and> ao")
      case True
      then have "resolveLoop fuel cw store lay l ct cols ao = Some (store, l)"
        by (rule resolveLoop_overlap)
      with step.prems(1) have e: "store' = store" "l' = l" by simp_all
      show ?thesis unfolding e using True
        by (simp add: only_xy_refl frame_xy_self blocked_def axis_coord_def)
    next
      case nov: False
      let ?m = "if ct = Horizontal then l_x c + l_w c else l_y c + l_h c"
      let ?ax = "if ct = Horizontal then AxisX else AxisY"
      let ?p = "pushed ct cols cw c l"
      from step.prems(1) obtain s1 r where
        rcc: "resolveCompactionCollision fuel store lay (Detached l) ?m ?ax = Some (s1, r)"
        and rec: "resolveLoop fuel cw s1 lay ?p ct cols ao = Some (store', l')"
        unfolding resolveLoop_push[OF Some nov] by (auto split: option.splits)
      have vr: "valid_ref store (Detached l)" by (simp add: valid_ref_def)
      note fr = resolveCompactionCollision_frame[OF vr step.prems(2) rcc]
      then have o1: "only_xy store s1" by blast
      have sub1: "set lay \<subseteq> {..<length s1}"
        using step.prems(2) only_xy_length[OF o1] by simp
      note ih = step.IH[OF Some nov rcc rec sub1]
      have O: "only_xy store store'" using o1 ih by (blast intro: only_xy_trans)
      have pf: "\<exists>x y. ?p = l\<lparr>l_x := x, l_y := y\<rparr>" by (rule pushed_frame)
      have F: "\<exists>x y. l' = l\<lparr>l_x := x, l_y := y\<rparr>"
        using pf ih by (blast intro: frame_xy_trans)
      have C: "\<not> (ct = NoCompaction \<and> ao) \<longrightarrow> getFirstCollision cw l' = None"
        using ih by blast
      have N: "(\<forall>c\<in>set store'. nonneg c) \<and> nonneg l'"
        if h: "(\<forall>c\<in>set store. nonneg c) \<and> (\<forall>c\<in>set cw. nonneg c) \<and> nonneg l
                 \<and> (ct = Horizontal \<longrightarrow> l_w l \<le> cols)"
      proof -
        have nc: "nonneg c" using h c(1) by blast
        then have "0 \<le> ?m" by (simp add: nonneg_def)
        moreover have "nonneg (ref_get store (Detached l))" using h by (simp add: ref_get_def)
        ultimately have n1: "\<forall>c\<in>set s1. nonneg c" using fr h by blast
        have np: "nonneg ?p" using h nc by (intro pushed_nonneg) auto
        have wp: "l_w ?p = l_w l" using pf by (rule frame_xy_fields)
        have "ct = Horizontal \<longrightarrow> l_w ?p \<le> cols" unfolding wp using h by blast
        with ih n1 np h show ?thesis by blast
      qed
      have B: "blocked ct cw l'"
        if h: "(\<forall>c\<in>set cw. 1 \<le> l_w c \<and> 1 \<le> l_h c) \<and> 1 \<le> l_w l \<and> 1 \<le> l_h l
                 \<and> (blocked ct cw l \<or> (\<exists>c\<in>set cw. collides c l))"
      proof -
        have "1 \<le> l_w c" "1 \<le> l_h c" using h c(1) by auto
        then have J: "blocked ct cw ?p \<or> (\<exists>c'\<in>set cw. collides c' ?p)"
          using c h by (intro pushed_blocked) auto
        have wp: "l_w ?p = l_w l" and hp: "l_h ?p = l_h l"
          using pf by (rule frame_xy_fields)+
        have "1 \<le> l_w ?p" "1 \<le> l_h ?p" unfolding wp hp using h by blast+
        with ih J h show ?thesis by blast
      qed
      have K: "l_x l' \<le> 0 \<or> l_x l' + l_w l' \<le> cols" if h: "ct = Horizontal"
      proof -
        from pushed_fits[OF h, of cols cw c l] ih h show ?thesis by blast
      qed
      from O F C N B K show ?thesis by blast
    qed
  qed
qed

lemma resolveLoop_total:
  "distinct (map (\<lambda>a. l_i (store ! a)) lay) \<Longrightarrow> set lay \<subseteq> {..<length store} \<Longrightarrow>
   length lay < fuel \<Longrightarrow>
   \<exists>res. resolveLoop fuel cw store lay l ct cols ao = Some res"
proof (induction fuel cw store lay l ct cols ao rule: resolveLoop_induct2)
  case (step fuel cw store lay l ct cols ao)
  show ?case
  proof (cases "getFirstCollision cw l")
    case None
    then show ?thesis by (simp add: resolveLoop_None)
  next
    case (Some c)
    show ?thesis
    proof (cases "ct = NoCompaction \<and> ao")
      case True
      then show ?thesis by (simp add: resolveLoop_overlap)
    next
      case nov: False
      let ?m = "if ct = Horizontal then l_x c + l_w c else l_y c + l_h c"
      let ?ax = "if ct = Horizontal then AxisX else AxisY"
      have vr: "valid_ref store (Detached l)" by (simp add: valid_ref_def)
      have "length lay + 1 \<le> fuel +
              nat (indexOf (map (\<lambda>a. l_i (store ! a)) lay) (l_i (ref_get store (Detached l))) + 1)"
        using step.prems(3) by simp
      from resolveCompactionCollision_total[OF step.prems(1,2) vr this, of ?m ?ax]
      obtain s1 r where
        rcc: "resolveCompactionCollision fuel store lay (Detached l) ?m ?ax = Some (s1, r)"
        by fastforce
      from resolveCompactionCollision_frame[OF vr step.prems(2) rcc]
      have o1: "only_xy store s1" by blast
      have sub1: "set lay \<subseteq> {..<length s1}"
        using step.prems(2) only_xy_length[OF o1] by simp
      have ids1: "map (\<lambda>a. l_i (s1 ! a)) lay = map (\<lambda>a. l_i (store ! a)) lay"
        using o1 step.prems(2) by (rule ids_only_xy)
      have d1: "distinct (map (\<lambda>a. l_i (s1 ! a)) lay)"
        unfolding ids1 by (rule step.prems(1))
      from step.IH[OF Some nov rcc d1 sub1 step.prems(3)]
      show ?thesis unfolding resolveLoop_push[OF Some nov] rcc by simp
    qed
  qed
qed


definition compactStart :: "compactType \<Rightarrow> layoutItem list \<Rightarrow> layoutItem \<Rightarrow> layoutItem" where
  "compactStart ct cw l =
     (if ct = Vertical then moveUp cw (l\<lparr>l_y := min (bottom cw) (l_y l)\<rparr>)
      else if ct = Horizontal then moveLeft cw l
      else l)"

lemma compactItem_alt:
  "compactItem fuel cw l ct cols store lay ao =
     (case resolveLoop fuel cw store lay (compactStart ct cw l) ct cols ao of
        None \<Rightarrow> None
      | Some (store', l2) \<Rightarrow> Some (store', l2\<lparr>l_y := max (l_y l2) 0, l_x := max (l_x l2) 0\<rparr>))"
  by (simp add: compactItem_def compactStart_def Let_def
      cong: option.case_cong split: option.splits)

lemma compactStart_frame: "\<exists>x y. compactStart ct cw l = l\<lparr>l_x := x, l_y := y\<rparr>"
proof (cases ct)
  case Vertical
  let ?l0 = "l\<lparr>l_y := min (bottom cw) (l_y l)\<rparr>"
  from moveUp_frame[of cw ?l0] obtain y where "moveUp cw ?l0 = ?l0\<lparr>l_y := y\<rparr>" by blast
  then have "compactStart ct cw l = l\<lparr>l_x := l_x l, l_y := y\<rparr>"
    using Vertical by (simp add: compactStart_def)
  then show ?thesis by blast
next
  case Horizontal
  from moveLeft_frame[of cw l] obtain x where "moveLeft cw l = l\<lparr>l_x := x\<rparr>" by blast
  then have "compactStart ct cw l = l\<lparr>l_x := x, l_y := l_y l\<rparr>"
    using Horizontal by (simp add: compactStart_def)
  then show ?thesis by blast
next
  case NoCompaction
  then have "compactStart ct cw l = l" by (simp add: compactStart_def)
  then show ?thesis using frame_xy_self[of l] by simp
qed

lemma compactStart_nonneg:
  assumes "nonneg l"
  shows "nonneg (compactStart ct cw l)"
proof (cases ct)
  case Vertical
  let ?l0 = "l\<lparr>l_y := min (bottom cw) (l_y l)\<rparr>"
  from moveUp_frame[of cw ?l0] obtain y where
    y: "moveUp cw ?l0 = ?l0\<lparr>l_y := y\<rparr>" "0 \<le> l_y ?l0 \<longrightarrow> 0 \<le> y" by blast
  have "0 \<le> l_y ?l0" using assms bottom_nonneg[of cw] by (simp add: nonneg_def)
  with y(2) have "0 \<le> y" by simp
  then show ?thesis using Vertical assms y(1) by (simp add: compactStart_def nonneg_def)
next
  case Horizontal
  from moveLeft_frame[of cw l] obtain x where
    x: "moveLeft cw l = l\<lparr>l_x := x\<rparr>" "0 \<le> l_x l \<longrightarrow> 0 \<le> x" by blast
  then have "0 \<le> x" using assms by (simp add: nonneg_def)
  then show ?thesis using Horizontal assms x(1) by (simp add: compactStart_def nonneg_def)
next
  case NoCompaction
  then show ?thesis using assms by (simp add: compactStart_def)
qed

lemma compactStart_blocked:
  "blocked ct cw (compactStart ct cw l) \<or> (\<exists>c\<in>set cw. collides c (compactStart ct cw l))"
proof (cases ct)
  case Vertical
  let ?l0 = "l\<lparr>l_y := min (bottom cw) (l_y l)\<rparr>"
  have e: "compactStart ct cw l = moveUp cw ?l0" using Vertical by (simp add: compactStart_def)
  from moveUp_stop[of cw ?l0] show ?thesis
  proof
    assume "l_y (moveUp cw ?l0) \<le> 0"
    then show ?thesis unfolding e using Vertical by (simp add: blocked_def axis_coord_def)
  next
    assume "getFirstCollision cw (moveUp cw ?l0) \<noteq> None"
    then show ?thesis unfolding e by (auto dest: getFirstCollision_Some)
  qed
next
  case Horizontal
  have e: "compactStart ct cw l = moveLeft cw l" using Horizontal by (simp add: compactStart_def)
  from moveLeft_stop[of cw l] show ?thesis
  proof
    assume "l_x (moveLeft cw l) \<le> 0"
    then show ?thesis unfolding e using Horizontal by (simp add: blocked_def axis_coord_def)
  next
    assume "getFirstCollision cw (moveLeft cw l) \<noteq> None"
    then show ?thesis unfolding e by (auto dest: getFirstCollision_Some)
  qed
next
  case NoCompaction
  then show ?thesis by (simp add: blocked_def axis_coord_def)
qed

lemma compactStart_fits:
  assumes "ct = Horizontal"
  shows "l_x (compactStart ct cw l) \<le> 0 \<or> (\<exists>c\<in>set cw. collides c (compactStart ct cw l))"
proof -
  have e: "compactStart ct cw l = moveLeft cw l" using assms by (simp add: compactStart_def)
  from moveLeft_stop[of cw l] show ?thesis unfolding e by (auto dest: getFirstCollision_Some)
qed

lemma compactItem_total:
  assumes "distinct (map (\<lambda>a. l_i (store ! a)) lay)" "set lay \<subseteq> {..<length store}"
    "length lay < fuel"
  shows "\<exists>res. compactItem fuel cw l ct cols store lay ao = Some res"
proof -
  from resolveLoop_total[OF assms, of cw "compactStart ct cw l" ct cols ao]
  obtain res where "resolveLoop fuel cw store lay (compactStart ct cw l) ct cols ao = Some res"
    by blast
  then show ?thesis unfolding compactItem_alt by (cases res) simp
qed

lemma compactItem_props:
  assumes res: "compactItem fuel cw l ct cols store lay ao = Some (store', l')"
    and sub: "set lay \<subseteq> {..<length store}"
  shows "only_xy store store'"
    and "\<exists>x y. l' = l\<lparr>l_x := x, l_y := y\<rparr>"
    and "(\<forall>c\<in>set store. nonneg c) \<and> (\<forall>c\<in>set cw. nonneg c) \<and> nonneg l
           \<and> (ct = Horizontal \<longrightarrow> l_w l \<le> cols)
         \<longrightarrow> (\<forall>c\<in>set store'. nonneg c) \<and> nonneg l'
           \<and> (\<not> (ct = NoCompaction \<and> ao) \<longrightarrow> getFirstCollision cw l' = None)
           \<and> ((\<forall>c\<in>set cw. 1 \<le> l_w c \<and> 1 \<le> l_h c) \<and> 1 \<le> l_w l \<and> 1 \<le> l_h l
                \<longrightarrow> blocked ct cw l')
           \<and> (ct = Horizontal \<longrightarrow> l_x l' \<le> 0 \<or> l_x l' + l_w l' \<le> cols)"
proof -
  let ?l1 = "compactStart ct cw l"
  from res obtain l2 where
    loop: "resolveLoop fuel cw store lay ?l1 ct cols ao = Some (store', l2)"
    and l': "l' = l2\<lparr>l_y := max (l_y l2) 0, l_x := max (l_x l2) 0\<rparr>"
    unfolding compactItem_alt by (auto split: option.splits)
  note P = resolveLoop_props[OF loop sub]
  show "only_xy store store'" using P by blast
  have f1: "\<exists>x y. ?l1 = l\<lparr>l_x := x, l_y := y\<rparr>" by (rule compactStart_frame)
  have f2: "\<exists>x y. l2 = ?l1\<lparr>l_x := x, l_y := y\<rparr>" using P by blast
  have "l' = l2\<lparr>l_x := max (l_x l2) 0, l_y := max (l_y l2) 0\<rparr>" unfolding l' by simp
  then have f3: "\<exists>x y. l' = l2\<lparr>l_x := x, l_y := y\<rparr>" by blast
  show "\<exists>x y. l' = l\<lparr>l_x := x, l_y := y\<rparr>"
    using f1 f2 f3 by (blast intro: frame_xy_trans)
  show "(\<forall>c\<in>set store. nonneg c) \<and> (\<forall>c\<in>set cw. nonneg c) \<and> nonneg l
           \<and> (ct = Horizontal \<longrightarrow> l_w l \<le> cols)
         \<longrightarrow> (\<forall>c\<in>set store'. nonneg c) \<and> nonneg l'
           \<and> (\<not> (ct = NoCompaction \<and> ao) \<longrightarrow> getFirstCollision cw l' = None)
           \<and> ((\<forall>c\<in>set cw. 1 \<le> l_w c \<and> 1 \<le> l_h c) \<and> 1 \<le> l_w l \<and> 1 \<le> l_h l
                \<longrightarrow> blocked ct cw l')
           \<and> (ct = Horizontal \<longrightarrow> l_x l' \<le> 0 \<or> l_x l' + l_w l' \<le> cols)"
  proof
    assume h: "(\<forall>c\<in>set store. nonneg c) \<and> (\<forall>c\<in>set cw. nonneg c) \<and> nonneg l
           \<and> (ct = Horizontal \<longrightarrow> l_w l \<le> cols)"
    have n1: "nonneg ?l1" using h by (intro compactStart_nonneg) blast
    have w1: "l_w ?l1 = l_w l" and h1: "l_h ?l1 = l_h l"
      using f1 by (rule frame_xy_fields)+
    have wc: "ct = Horizontal \<longrightarrow> l_w ?l1 \<le> cols" unfolding w1 using h by blast
    from P h n1 wc have n2: "(\<forall>c\<in>set store'. nonneg c) \<and> nonneg l2" by blast
    then have e: "l' = l2" unfolding l' by (simp add: nonneg_def max_def)
    have C: "\<not> (ct = NoCompaction \<and> ao) \<longrightarrow> getFirstCollision cw l' = None"
      unfolding e using P by blast
    have B: "blocked ct cw l'"
      if s: "(\<forall>c\<in>set cw. 1 \<le> l_w c \<and> 1 \<le> l_h c) \<and> 1 \<le> l_w l \<and> 1 \<le> l_h l"
    proof -
      have "1 \<le> l_w ?l1" "1 \<le> l_h ?l1" unfolding w1 h1 using s by blast+
      with P s compactStart_blocked[of ct cw l] show ?thesis unfolding e by blast
    qed
    have K: "ct = Horizontal \<longrightarrow> l_x l' \<le> 0 \<or> l_x l' + l_w l' \<le> cols"
    proof
      assume H: "ct = Horizontal"
      from compactStart_fits[OF H, of cw l] P H show "l_x l' \<le> 0 \<or> l_x l' + l_w l' \<le> cols"
        unfolding e by blast
    qed
    from n2 C B K show "(\<forall>c\<in>set store'. nonneg c) \<and> nonneg l'
           \<and> (\<not> (ct = NoCompaction \<and> ao) \<longrightarrow> getFirstCollision cw l' = None)
           \<and> ((\<forall>c\<in>set cw. 1 \<le> l_w c \<and> 1 \<le> l_h c) \<and> 1 \<le> l_w l \<and> 1 \<le> l_h l
                \<longrightarrow> blocked ct cw l')
           \<and> (ct = Horizontal \<longrightarrow> l_x l' \<le> 0 \<or> l_x l' + l_w l' \<le> cols)"
      unfolding e by blast
  qed
qed

lemma cloneLayoutItem_id [simp]: "cloneLayoutItem l = l"
  by (simp add: cloneLayoutItem_def)

lemma those_all_Some:
  "\<forall>x\<in>set xs. x \<noteq> None \<Longrightarrow> those xs = Some (map the xs)"
  by (induction xs) auto

lemma distinct_ids_sorted:
  assumes "distinct (map l_i layout)" "distinct xs" "set xs \<subseteq> {..<length layout}"
  shows "distinct (map (\<lambda>a. l_i (layout ! a)) xs)"
proof -
  have "inj_on (\<lambda>a. l_i (layout ! a)) (set xs)"
  proof (rule inj_onI)
    fix a b assume a: "a \<in> set xs" and b: "b \<in> set xs"
      and e: "l_i (layout ! a) = l_i (layout ! b)"
    have "a < length layout" "b < length layout" using a b assms(3) by auto
    then have ab: "a < length (map l_i layout)" "b < length (map l_i layout)"
      and "map l_i layout ! a = map l_i layout ! b" using e by simp_all
    then show "a = b"
      using nth_eq_iff_index_eq[OF assms(1) ab] by blast
  qed
  with assms(2) show ?thesis by (simp add: distinct_map)
qed

lemma compact_loop_frame:
  assumes "distinct (map (\<lambda>a. l_i (layout ! a)) sorted')"
    and "set sorted' \<subseteq> {..<length layout}"
    and "length sorted' < fuel"
    and "only_xy layout store"
    and "set rest \<subseteq> {..<length layout}"
    and "length out = length layout"
  shows "\<exists>out'. compact_loop fuel ct cols ao sorted' rest store cw out = Some out'
           \<and> length out' = length layout
           \<and> (\<forall>a<length layout. a \<notin> set rest \<longrightarrow> out' ! a = out ! a)
           \<and> (\<forall>a\<in>set rest. \<exists>x y.
                 out' ! a = Some ((layout ! a)\<lparr>l_x := x, l_y := y, moved := False\<rparr>))"
  using assms(4,5,6)
proof (induction rest arbitrary: store cw out)
  case Nil
  then show ?case by simp
next
  case (Cons a rest)
  have a: "a < length layout" using Cons.prems(2) by simp
  have as: "a < length store" using a only_xy_length[OF Cons.prems(1)] by simp
  have rest: "set rest \<subseteq> {..<length layout}" using Cons.prems(2) by simp
  have sub: "set sorted' \<subseteq> {..<length store}"
    using assms(2) only_xy_length[OF Cons.prems(1)] by simp
  have ids: "map (\<lambda>a. l_i (store ! a)) sorted' = map (\<lambda>a. l_i (layout ! a)) sorted'"
    using Cons.prems(1) assms(2) by (rule ids_only_xy)
  have d: "distinct (map (\<lambda>a. l_i (store ! a)) sorted')" unfolding ids by (rule assms(1))
  from Cons.prems(1) a obtain x0 y0 where
    sa: "store ! a = (layout ! a)\<lparr>l_x := x0, l_y := y0\<rparr>"
    unfolding only_xy_def by blast
  show ?case
  proof (cases "static (store ! a)")
    case True
    let ?out1 = "out[a := Some ((store ! a)\<lparr>moved := False\<rparr>)]"
    have step: "compact_loop fuel ct cols ao sorted' (a # rest) store cw out =
                compact_loop fuel ct cols ao sorted' rest store cw ?out1"
      using True by (simp add: Let_def)
    have len1: "length ?out1 = length layout" using Cons.prems(3) by simp
    from Cons.IH[OF Cons.prems(1) rest len1, of cw] obtain out' where out':
      "compact_loop fuel ct cols ao sorted' rest store cw ?out1 = Some out'"
      "length out' = length layout"
      "\<forall>b<length layout. b \<notin> set rest \<longrightarrow> out' ! b = ?out1 ! b"
      "\<forall>b\<in>set rest. \<exists>x y.
          out' ! b = Some ((layout ! b)\<lparr>l_x := x, l_y := y, moved := False\<rparr>)"
      by blast
    have here: "\<exists>x y. out' ! a = Some ((layout ! a)\<lparr>l_x := x, l_y := y, moved := False\<rparr>)"
    proof (cases "a \<in> set rest")
      case True
      with out'(4) show ?thesis by blast
    next
      case False
      with out'(3) a have "out' ! a = ?out1 ! a" by blast
      also have "\<dots> = Some ((store ! a)\<lparr>moved := False\<rparr>)"
        using a Cons.prems(3) by simp
      also have "\<dots> = Some ((layout ! a)\<lparr>l_x := x0, l_y := y0, moved := False\<rparr>)"
        unfolding sa by simp
      finally show ?thesis by blast
    qed
    have keep: "\<forall>b<length layout. b \<notin> set (a # rest) \<longrightarrow> out' ! b = out ! b"
      using out'(3) by auto
    have all: "\<forall>b\<in>set (a # rest). \<exists>x y.
          out' ! b = Some ((layout ! b)\<lparr>l_x := x, l_y := y, moved := False\<rparr>)"
      using here out'(4) by auto
    from out'(1,2) keep all show ?thesis unfolding step by blast
  next
    case False
    from compactItem_total[OF d sub assms(3), of cw "store ! a" ct cols ao]
    obtain s1 l1 where
      ci: "compactItem fuel cw (store ! a) ct cols store sorted' ao = Some (s1, l1)"
      by fastforce
    let ?l2 = "l1\<lparr>moved := False\<rparr>"
    let ?out1 = "out[a := Some ?l2]"
    have step: "compact_loop fuel ct cols ao sorted' (a # rest) store cw out =
                compact_loop fuel ct cols ao sorted' rest s1 (cw @ [?l2]) ?out1"
      using False ci by (simp add: Let_def)
    from compactItem_props(1,2)[OF ci sub] have
      o1: "only_xy store s1" and f1: "\<exists>x y. l1 = (store ! a)\<lparr>l_x := x, l_y := y\<rparr>"
      by blast+
    have O: "only_xy layout s1" using Cons.prems(1) o1 by (rule only_xy_trans)
    have len1: "length ?out1 = length layout" using Cons.prems(3) by simp
    from Cons.IH[OF O rest len1, of "cw @ [?l2]"] obtain out' where out':
      "compact_loop fuel ct cols ao sorted' rest s1 (cw @ [?l2]) ?out1 = Some out'"
      "length out' = length layout"
      "\<forall>b<length layout. b \<notin> set rest \<longrightarrow> out' ! b = ?out1 ! b"
      "\<forall>b\<in>set rest. \<exists>x y.
          out' ! b = Some ((layout ! b)\<lparr>l_x := x, l_y := y, moved := False\<rparr>)"
      by blast
    from f1 obtain x1 y1 where l1: "l1 = (store ! a)\<lparr>l_x := x1, l_y := y1\<rparr>" by blast
    have here: "\<exists>x y. out' ! a = Some ((layout ! a)\<lparr>l_x := x, l_y := y, moved := False\<rparr>)"
    proof (cases "a \<in> set rest")
      case True
      with out'(4) show ?thesis by blast
    next
      case False
      with out'(3) a have "out' ! a = ?out1 ! a" by blast
      also have "\<dots> = Some ?l2" using a Cons.prems(3) by simp
      also have "\<dots> = Some ((layout ! a)\<lparr>l_x := x1, l_y := y1, moved := False\<rparr>)"
        unfolding l1 sa by simp
      finally show ?thesis by blast
    qed
    have keep: "\<forall>b<length layout. b \<notin> set (a # rest) \<longrightarrow> out' ! b = out ! b"
      using out'(3) by auto
    have all: "\<forall>b\<in>set (a # rest). \<exists>x y.
          out' ! b = Some ((layout ! b)\<lparr>l_x := x, l_y := y, moved := False\<rparr>)"
      using here out'(4) by auto
    from out'(1,2) keep all show ?thesis unfolding step by blast
  qed
qed



section \<open>Compaction: the frame\<close>

text \<open>
  C10 (as amended).  For every layout with unique ids, every mode, column count and
  overlap flag (and a recursion bound above the length of the layout),
  \<^verbatim>\<open>compact\<close> returns
  an array of the length of the input whose item at each index has the id, \<open>w\<close> and
  \<open>h\<close> of the input item at that index and a cleared flag \<^verbatim>\<open>moved\<close>; it
  differs from the input item in \<open>x\<close>, \<open>y\<close> and \<^verbatim>\<open>moved\<close> at most.
\<close>

theorem compact_frame:
  assumes "distinct (map l_i layout)" and "length layout < fuel"
  shows "\<exists>out. compact tie fuel layout ct cols allowOverlap = Some out
           \<and> length out = length layout
           \<and> (\<forall>k<length layout.
                 l_i (out ! k) = l_i (layout ! k)
               \<and> l_w (out ! k) = l_w (layout ! k)
               \<and> l_h (out ! k) = l_h (layout ! k)
               \<and> \<not> moved (out ! k)
               \<and> (\<exists>x y. out ! k = (layout ! k)\<lparr>l_x := x, l_y := y, moved := False\<rparr>))"
proof -
  let ?n = "length layout"
  let ?s = "sortLayoutItems tie layout [0..<?n] ct"
  have set_s: "set ?s = {..<?n}" by (simp add: lessThan_atLeast0)
  have sub: "set ?s \<subseteq> {..<?n}" using set_s by simp
  have ds: "distinct ?s" by simp
  have d: "distinct (map (\<lambda>a. l_i (layout ! a)) ?s)"
    using assms(1) ds sub by (rule distinct_ids_sorted)
  have fuel: "length ?s < fuel" using assms(2) by simp
  have len0: "length (replicate ?n (None :: layoutItem option)) = ?n" by simp
  from compact_loop_frame[OF d sub fuel only_xy_refl sub len0, of ct cols allowOverlap
         "getStatics layout"]
  obtain out' where out':
    "compact_loop fuel ct cols allowOverlap ?s ?s layout (getStatics layout)
       (replicate ?n None) = Some out'"
    "length out' = ?n"
    "\<forall>a\<in>set ?s. \<exists>x y.
        out' ! a = Some ((layout ! a)\<lparr>l_x := x, l_y := y, moved := False\<rparr>)"
    by blast
  have each: "\<And>k. k < ?n \<Longrightarrow>
      \<exists>x y. out' ! k = Some ((layout ! k)\<lparr>l_x := x, l_y := y, moved := False\<rparr>)"
    using out'(3) set_s by blast
  have "\<forall>v\<in>set out'. v \<noteq> None"
  proof
    fix v assume "v \<in> set out'"
    then obtain k where "k < length out'" "v = out' ! k" by (auto simp: in_set_conv_nth)
    with each[of k] out'(2) show "v \<noteq> None" by auto
  qed
  then have th: "those out' = Some (map the out')" by (rule those_all_Some)
  have res: "compact tie fuel layout ct cols allowOverlap = Some (map the out')"
    using out'(1) th by (simp add: compact_def Let_def)
  have fields: "\<forall>k<?n.
         l_i (map the out' ! k) = l_i (layout ! k)
       \<and> l_w (map the out' ! k) = l_w (layout ! k)
       \<and> l_h (map the out' ! k) = l_h (layout ! k)
       \<and> \<not> moved (map the out' ! k)
       \<and> (\<exists>x y. map the out' ! k = (layout ! k)\<lparr>l_x := x, l_y := y, moved := False\<rparr>)"
  proof (intro allI impI)
    fix k assume k: "k < ?n"
    from each[OF k] obtain x y where
      e: "out' ! k = Some ((layout ! k)\<lparr>l_x := x, l_y := y, moved := False\<rparr>)" by blast
    have m: "map the out' ! k = (layout ! k)\<lparr>l_x := x, l_y := y, moved := False\<rparr>"
      using k out'(2) e by simp
    show "l_i (map the out' ! k) = l_i (layout ! k)
       \<and> l_w (map the out' ! k) = l_w (layout ! k)
       \<and> l_h (map the out' ! k) = l_h (layout ! k)
       \<and> \<not> moved (map the out' ! k)
       \<and> (\<exists>x y. map the out' ! k = (layout ! k)\<lparr>l_x := x, l_y := y, moved := False\<rparr>)"
      unfolding m by (simp, blast)
  qed
  have len: "length (map the out') = ?n" using out'(2) by simp
  from res len fields show ?thesis by blast
qed

theorem compact_frame_witness:
  "\<exists>out. compact inputOrder 3 [mkItem ''a'' 0 0 1 1 False, mkItem ''c'' 0 2 1 1 False] Vertical 12 False
            = Some out
         \<and> length out = length [mkItem ''a'' 0 0 1 1 False, mkItem ''c'' 0 2 1 1 False]
         \<and> (\<forall>k<length [mkItem ''a'' 0 0 1 1 False, mkItem ''c'' 0 2 1 1 False].
               l_i (out ! k) = l_i ([mkItem ''a'' 0 0 1 1 False, mkItem ''c'' 0 2 1 1 False] ! k)
             \<and> l_w (out ! k) = l_w ([mkItem ''a'' 0 0 1 1 False, mkItem ''c'' 0 2 1 1 False] ! k)
             \<and> l_h (out ! k) = l_h ([mkItem ''a'' 0 0 1 1 False, mkItem ''c'' 0 2 1 1 False] ! k)
             \<and> \<not> moved (out ! k)
             \<and> (\<exists>x y. out ! k =
                   ([mkItem ''a'' 0 0 1 1 False, mkItem ''c'' 0 2 1 1 False] ! k)
                     \<lparr>l_x := x, l_y := y, moved := False\<rparr>))"
proof -
  have d: "distinct (map l_i [mkItem ''a'' 0 0 1 1 False, mkItem ''c'' 0 2 1 1 False])"
    by (simp add: mkItem_def)
  have f: "length [mkItem ''a'' 0 0 1 1 False, mkItem ''c'' 0 2 1 1 False] < 3" by simp
  show ?thesis by (rule compact_frame[OF d f])
qed

text \<open>
  The claim as stated fails for a layout in which an id occurs twice:
  \<^verbatim>\<open>resolveCompactionCollision\<close> looks the pushed item up by its id, so for the
  second item with the id \<^verbatim>\<open>a\<close> the scan starts behind the first one and finds
  the item \<^verbatim>\<open>b\<close> that is pushing it; the two items push each other down without
  end, and \<^verbatim>\<open>compact\<close> returns for no recursion bound.
\<close>

lemma resolveCompactionCollision_repeated_id:
  fixes s :: "layoutItem list"
  assumes "length s = 4" "map l_i s = [''s'', ''a'', ''b'', ''a'']"
    and "\<not> static (s ! 2)" "\<not> static (s ! 3)"
    and "l_x (s ! 2) = 1" "l_x (s ! 3) = 1" "l_w (s ! 2) = 1" "l_w (s ! 3) = 1"
    and "l_h (s ! 2) = 2" "l_h (s ! 3) = 2"
  shows "(l_y (s ! 3) = l_y (s ! 2) + 1 \<longrightarrow>
            resolveCompactionCollision n s [0, 1, 2, 3] (Stored 2) m AxisY = None)
       \<and> (l_y (s ! 3) = l_y (s ! 2) \<longrightarrow>
            resolveCompactionCollision n s [0, 1, 2, 3] (Stored 3) m AxisY = None)"
  using assms
proof (induction n arbitrary: s m)
  case 0
  show ?case by simp
next
  case (Suc n)
  obtain i0 i1 i2 i3 where s: "s = [i0, i1, i2, i3]"
    using Suc.prems(1) by (auto simp: length_Suc_conv eval_nat_numeral)
  have ids: "l_i i0 = ''s''" "l_i i1 = ''a''" "l_i i2 = ''b''" "l_i i3 = ''a''"
    using Suc.prems(2) unfolding s by simp_all
  have f: "\<not> static i2" "\<not> static i3" "l_x i2 = 1" "l_x i3 = 1" "l_w i2 = 1" "l_w i3 = 1"
    "l_h i2 = 2" "l_h i3 = 2"
    using Suc.prems(3-10) unfolding s by (simp_all add: eval_nat_numeral)
  show ?case
  proof (intro conjI impI)
    assume y: "l_y (s ! 3) = l_y (s ! 2) + 1"
    then have y': "l_y i3 = l_y i2 + 1" unfolding s by (simp add: eval_nat_numeral)
    let ?s1 = "[i0, i1, i2\<lparr>l_y := l_y i2 + 1\<rparr>, i3]"
    have ih: "resolveCompactionCollision n ?s1 [0, 1, 2, 3] (Stored 3) (m + 2) AxisY = None"
      using Suc.IH[of ?s1 "m + 2"] ids f y' by (simp add: eval_nat_numeral)
    show "resolveCompactionCollision (Suc n) s [0, 1, 2, 3] (Stored 2) m AxisY = None"
      unfolding s using ids f y' ih
      by (simp add: ref_map_def ref_get_def axis_set_def axis_get_def sizeProp_get_def
          resolveCompactionCollision_scan.simps collides_def eval_nat_numeral Let_def)
  next
    assume y: "l_y (s ! 3) = l_y (s ! 2)"
    then have y': "l_y i3 = l_y i2" unfolding s by (simp add: eval_nat_numeral)
    let ?s1 = "[i0, i1, i2, i3\<lparr>l_y := l_y i3 + 1\<rparr>]"
    have ih: "resolveCompactionCollision n ?s1 [0, 1, 2, 3] (Stored 2) (m + 2) AxisY = None"
      using Suc.IH[of ?s1 "m + 2"] ids f y' by (simp add: eval_nat_numeral)
    show "resolveCompactionCollision (Suc n) s [0, 1, 2, 3] (Stored 3) m AxisY = None"
      unfolding s using ids f y' ih
      by (simp add: ref_map_def ref_get_def axis_set_def axis_get_def sizeProp_get_def
          resolveCompactionCollision_scan.simps collides_def eval_nat_numeral Let_def)
  qed
qed

theorem compact_repeated_id_counterexample:
  "\<forall>tie fuel.
     compact tie fuel
       [mkItem ''s'' 0 0 1 1 True, mkItem ''a'' 0 1 2 1 False,
        mkItem ''b'' 1 1 1 2 False, mkItem ''a'' 1 2 1 2 False] Vertical 12 False = None"
proof (intro allI)
  fix tie :: tieOrder and fuel :: nat
  let ?L = "[mkItem ''s'' 0 0 1 1 True, mkItem ''a'' 0 1 2 1 False,
             mkItem ''b'' 1 1 1 2 False, mkItem ''a'' 1 2 1 2 False]"
  let ?cw = "[mkItem ''s'' 0 0 1 1 True]"
  let ?l0 = "mkItem ''a'' 0 0 2 1 False"
  have srt: "sortLayoutItems tie ?L [0..<length ?L] Vertical = [0, 1, 2, 3]"
    by (simp add: sortLayoutItems_def sortLayoutItemsByRowCol_def sort_cmp_def
        compareRowCol_def mkItem_def upt_rec)
  have cs: "compactStart Vertical ?cw (mkItem ''a'' 0 1 2 1 False) = ?l0" by code_simp
  have gfc: "getFirstCollision ?cw ?l0 = Some (mkItem ''s'' 0 0 1 1 True)" by code_simp
  have push: "resolveCompactionCollision fuel ?L [0, 1, 2, 3] (Detached ?l0) 1 AxisY = None"
  proof (cases fuel)
    case 0
    then show ?thesis by simp
  next
    case (Suc n)
    have "resolveCompactionCollision n ?L [0, 1, 2, 3] (Stored 2) (1 + 1) AxisY = None"
      using resolveCompactionCollision_repeated_id[of ?L n "1 + 1"]
      by (simp add: mkItem_def eval_nat_numeral)
    then show ?thesis unfolding Suc
      by (simp add: ref_map_def ref_get_def axis_set_def axis_get_def sizeProp_get_def
          resolveCompactionCollision_scan.simps collides_def eval_nat_numeral Let_def
          mkItem_def)
  qed
  have nov: "\<not> (Vertical = NoCompaction \<and> False)" by simp
  have loop: "resolveLoop fuel ?cw ?L [0, 1, 2, 3] ?l0 Vertical 12 False = None"
    unfolding resolveLoop_push[OF gfc nov] using push by (simp add: mkItem_def)
  have item: "compactItem fuel ?cw (mkItem ''a'' 0 1 2 1 False) Vertical 12 ?L [0, 1, 2, 3] False
                = None"
    unfolding compactItem_alt cs loop by simp
  have st: "getStatics ?L = ?cw" by (simp add: getStatics_def mkItem_def)
  have s0: "static (?L ! 0)" "\<not> static (?L ! 1)" "?L ! 1 = mkItem ''a'' 0 1 2 1 False"
    by (simp_all add: mkItem_def)
  have "compact_loop fuel Vertical 12 False [0, 1, 2, 3] [0, 1, 2, 3] ?L ?cw
          (replicate (length ?L) None) = None"
    using s0 item by (simp add: Let_def)
  then show "compact tie fuel ?L Vertical 12 False = None"
    unfolding compact_def srt st by (simp add: Let_def)
qed

section \<open>Compaction: the invariant of the loop\<close>

text \<open>
  The loop of \<^verbatim>\<open>compact\<close> keeps, for the items processed so far (\<open>pre\<close>), the
  store, the array \<^verbatim>\<open>compareWith\<close> and the output array, the following: the
  store differs from the input in \<open>x\<close> and \<open>y\<close> of non-static items only; nothing has a
  negative coordinate or size; two items of \<^verbatim>\<open>compareWith\<close> collide only if both
  are static; the static items of \<^verbatim>\<open>compareWith\<close> are those of the input; its
  other items are the placed clones, which are the output slots of the processed
  non-static items; each placed clone cannot be pulled one more cell towards the origin
  (when no size is below one); and in horizontal mode each placed clone sits at column
  zero or ends within the columns.
\<close>

lemma collides_sym: "collides a b = collides b a"
  by (auto simp: collides_def)

lemma blocked_mono: "set cw \<subseteq> set cw' \<Longrightarrow> blocked ct cw l \<Longrightarrow> blocked ct cw' l"
  unfolding blocked_def by blast

lemma pulled_moved: "pulled ct (l\<lparr>moved := b\<rparr>) = (pulled ct l)\<lparr>moved := b\<rparr>"
  by (cases ct) (simp_all add: pulled_def)

lemma blocked_moved [simp]: "blocked ct cw (l\<lparr>moved := b\<rparr>) = blocked ct cw l"
  by (simp add: blocked_def pulled_moved axis_coord_def split: compactType.splits)

lemma nonneg_moved [simp]: "nonneg (l\<lparr>moved := b\<rparr>) = nonneg l"
  by (simp add: nonneg_def)

definition compact_inv ::
  "layoutItem list \<Rightarrow> compactType \<Rightarrow> int \<Rightarrow> nat list \<Rightarrow> layoutItem list \<Rightarrow> layoutItem list
     \<Rightarrow> layoutItem option list \<Rightarrow> bool" where
  "compact_inv layout ct cols pre store cw out \<longleftrightarrow>
      only_xy layout store
    \<and> (\<forall>c\<in>set store. nonneg c)
    \<and> (\<forall>c\<in>set cw. nonneg c)
    \<and> length out = length layout
    \<and> (\<forall>c\<in>set cw. \<forall>d\<in>set cw. collides c d \<longrightarrow> static c \<and> static d)
    \<and> (\<forall>c\<in>set cw. static c \<longrightarrow> (\<exists>b<length layout. static (layout ! b) \<and> c = layout ! b))
    \<and> (\<forall>b<length layout. static (layout ! b) \<longrightarrow> layout ! b \<in> set cw)
    \<and> (\<forall>c\<in>set cw. \<not> static c \<longrightarrow> (\<exists>a\<in>set pre. out ! a = Some c))
    \<and> (\<forall>a\<in>set pre.
          (static (layout ! a) \<longrightarrow> out ! a = Some ((layout ! a)\<lparr>moved := False\<rparr>))
        \<and> (\<not> static (layout ! a) \<longrightarrow>
             (\<exists>c\<in>set cw. \<not> static c \<and> out ! a = Some c)))
    \<and> ((\<forall>l\<in>set layout. 1 \<le> l_w l \<and> 1 \<le> l_h l) \<longrightarrow>
          (\<forall>c\<in>set cw. 1 \<le> l_w c \<and> 1 \<le> l_h c)
        \<and> (\<forall>c\<in>set cw. \<not> static c \<longrightarrow> blocked ct cw c))
    \<and> (ct = Horizontal \<longrightarrow>
          (\<forall>c\<in>set cw. \<not> static c \<longrightarrow> l_x c \<le> 0 \<or> l_x c + l_w c \<le> cols))"

lemma compact_invI:
  assumes "only_xy layout store"
    and "\<forall>c\<in>set store. nonneg c"
    and "\<forall>c\<in>set cw. nonneg c"
    and "length out = length layout"
    and "\<forall>c\<in>set cw. \<forall>d\<in>set cw. collides c d \<longrightarrow> static c \<and> static d"
    and "\<forall>c\<in>set cw. static c \<longrightarrow> (\<exists>b<length layout. static (layout ! b) \<and> c = layout ! b)"
    and "\<forall>b<length layout. static (layout ! b) \<longrightarrow> layout ! b \<in> set cw"
    and "\<forall>c\<in>set cw. \<not> static c \<longrightarrow> (\<exists>a\<in>set pre. out ! a = Some c)"
    and "\<forall>a\<in>set pre.
          (static (layout ! a) \<longrightarrow> out ! a = Some ((layout ! a)\<lparr>moved := False\<rparr>))
        \<and> (\<not> static (layout ! a) \<longrightarrow>
             (\<exists>c\<in>set cw. \<not> static c \<and> out ! a = Some c))"
    and "(\<forall>l\<in>set layout. 1 \<le> l_w l \<and> 1 \<le> l_h l) \<longrightarrow>
          (\<forall>c\<in>set cw. 1 \<le> l_w c \<and> 1 \<le> l_h c)
        \<and> (\<forall>c\<in>set cw. \<not> static c \<longrightarrow> blocked ct cw c)"
    and "ct = Horizontal \<longrightarrow>
          (\<forall>c\<in>set cw. \<not> static c \<longrightarrow> l_x c \<le> 0 \<or> l_x c + l_w c \<le> cols)"
  shows "compact_inv layout ct cols pre store cw out"
  unfolding compact_inv_def by (intro conjI assms)

lemma compact_invD:
  assumes "compact_inv layout ct cols pre store cw out"
  shows "only_xy layout store"
    and "\<forall>c\<in>set store. nonneg c"
    and "\<forall>c\<in>set cw. nonneg c"
    and "length out = length layout"
    and "\<forall>c\<in>set cw. \<forall>d\<in>set cw. collides c d \<longrightarrow> static c \<and> static d"
    and "\<forall>c\<in>set cw. static c \<longrightarrow> (\<exists>b<length layout. static (layout ! b) \<and> c = layout ! b)"
    and "\<forall>b<length layout. static (layout ! b) \<longrightarrow> layout ! b \<in> set cw"
    and "\<forall>c\<in>set cw. \<not> static c \<longrightarrow> (\<exists>a\<in>set pre. out ! a = Some c)"
    and "\<forall>a\<in>set pre.
          (static (layout ! a) \<longrightarrow> out ! a = Some ((layout ! a)\<lparr>moved := False\<rparr>))
        \<and> (\<not> static (layout ! a) \<longrightarrow>
             (\<exists>c\<in>set cw. \<not> static c \<and> out ! a = Some c))"
    and "(\<forall>l\<in>set layout. 1 \<le> l_w l \<and> 1 \<le> l_h l) \<longrightarrow>
          (\<forall>c\<in>set cw. 1 \<le> l_w c \<and> 1 \<le> l_h c)
        \<and> (\<forall>c\<in>set cw. \<not> static c \<longrightarrow> blocked ct cw c)"
    and "ct = Horizontal \<longrightarrow>
          (\<forall>c\<in>set cw. \<not> static c \<longrightarrow> l_x c \<le> 0 \<or> l_x c + l_w c \<le> cols)"
  using assms unfolding compact_inv_def by blast+

lemma compact_inv_static_step:
  assumes inv: "compact_inv layout ct cols pre store cw out"
    and a: "a < length layout" "a \<notin> set pre" "static (store ! a)"
  shows "compact_inv layout ct cols (pre @ [a]) store cw
           (out[a := Some ((store ! a)\<lparr>moved := False\<rparr>)])"
proof -
  note D = compact_invD[OF inv]
  have o: "only_xy layout store" and len: "length out = length layout"
    using D(1,4) .
  have st: "static (layout ! a)" using only_xy_fields(4)[OF o a(1)] a(3) by simp
  have sa: "store ! a = layout ! a" using only_xy_static[OF o a(1) st] .
  let ?out = "out[a := Some ((store ! a)\<lparr>moved := False\<rparr>)]"
  have keep: "\<And>b. b \<in> set pre \<Longrightarrow> ?out ! b = out ! b"
    using a(2) by (metis nth_list_update_neq)
  have here: "?out ! a = Some ((layout ! a)\<lparr>moved := False\<rparr>)"
    using a(1) len sa by simp
  show ?thesis
  proof (rule compact_invI)
    show "only_xy layout store" by (rule D(1))
    show "\<forall>c\<in>set store. nonneg c" by (rule D(2))
    show "\<forall>c\<in>set cw. nonneg c" by (rule D(3))
    show "length ?out = length layout" using len by simp
    show "\<forall>c\<in>set cw. \<forall>d\<in>set cw. collides c d \<longrightarrow> static c \<and> static d" by (rule D(5))
    show "\<forall>c\<in>set cw. static c \<longrightarrow> (\<exists>b<length layout. static (layout ! b) \<and> c = layout ! b)"
      by (rule D(6))
    show "\<forall>b<length layout. static (layout ! b) \<longrightarrow> layout ! b \<in> set cw" by (rule D(7))
    show "\<forall>c\<in>set cw. \<not> static c \<longrightarrow> (\<exists>b\<in>set (pre @ [a]). ?out ! b = Some c)"
    proof (intro ballI impI)
      fix c assume "c \<in> set cw" "\<not> static c"
      with D(8) obtain b where b: "b \<in> set pre" "out ! b = Some c" by blast
      then have "?out ! b = Some c" using keep by simp
      with b(1) show "\<exists>b\<in>set (pre @ [a]). ?out ! b = Some c" by auto
    qed
    show "\<forall>b\<in>set (pre @ [a]).
          (static (layout ! b) \<longrightarrow> ?out ! b = Some ((layout ! b)\<lparr>moved := False\<rparr>))
        \<and> (\<not> static (layout ! b) \<longrightarrow> (\<exists>c\<in>set cw. \<not> static c \<and> ?out ! b = Some c))"
    proof
      fix b assume b: "b \<in> set (pre @ [a])"
      show "(static (layout ! b) \<longrightarrow> ?out ! b = Some ((layout ! b)\<lparr>moved := False\<rparr>))
        \<and> (\<not> static (layout ! b) \<longrightarrow> (\<exists>c\<in>set cw. \<not> static c \<and> ?out ! b = Some c))"
      proof (cases "b = a")
        case True
        then show ?thesis using here st by simp
      next
        case False
        then have bp: "b \<in> set pre" using b by simp
        from D(9) bp have
          "(static (layout ! b) \<longrightarrow> out ! b = Some ((layout ! b)\<lparr>moved := False\<rparr>))
          \<and> (\<not> static (layout ! b) \<longrightarrow> (\<exists>c\<in>set cw. \<not> static c \<and> out ! b = Some c))"
          by blast
        then show ?thesis unfolding keep[OF bp] .
      qed
    qed
    show "(\<forall>l\<in>set layout. 1 \<le> l_w l \<and> 1 \<le> l_h l) \<longrightarrow>
          (\<forall>c\<in>set cw. 1 \<le> l_w c \<and> 1 \<le> l_h c)
        \<and> (\<forall>c\<in>set cw. \<not> static c \<longrightarrow> blocked ct cw c)" by (rule D(10))
    show "ct = Horizontal \<longrightarrow>
          (\<forall>c\<in>set cw. \<not> static c \<longrightarrow> l_x c \<le> 0 \<or> l_x c + l_w c \<le> cols)" by (rule D(11))
  qed
qed

lemma compact_inv_move_step:
  assumes inv: "compact_inv layout ct cols pre store cw out"
    and a: "a < length layout" "a \<notin> set pre" "\<not> static (store ! a)"
    and ci: "compactItem fuel cw (store ! a) ct cols store lay ao = Some (s1, l1)"
    and sub: "set lay \<subseteq> {..<length store}"
    and nov: "\<not> (ct = NoCompaction \<and> ao)"
    and W: "ct = Horizontal \<longrightarrow> (\<forall>l\<in>set layout. \<not> static l \<longrightarrow> l_w l \<le> cols)"
  shows "compact_inv layout ct cols (pre @ [a]) s1 (cw @ [l1\<lparr>moved := False\<rparr>])
           (out[a := Some (l1\<lparr>moved := False\<rparr>)])"
proof -
  note D = compact_invD[OF inv]
  let ?l2 = "l1\<lparr>moved := False\<rparr>"
  let ?out = "out[a := Some ?l2]"
  let ?cw = "cw @ [?l2]"
  have o: "only_xy layout store" and len: "length out = length layout"
    using D(1,4) .
  have as: "a < length store" using a(1) only_xy_length[OF o] by simp
  have nst: "\<not> static (layout ! a)" using only_xy_fields(4)[OF o a(1)] a(3) by simp
  have mem: "layout ! a \<in> set layout" using a(1) by simp
  have na: "nonneg (store ! a)" using D(2) as by simp
  have wa: "l_w (store ! a) = l_w (layout ! a)" and ha: "l_h (store ! a) = l_h (layout ! a)"
    using only_xy_fields(2,3)[OF o a(1)] by simp_all
  have wc: "ct = Horizontal \<longrightarrow> l_w (store ! a) \<le> cols"
    unfolding wa using W nst mem by blast
  note P = compactItem_props[OF ci sub]
  have o1: "only_xy store s1" by (rule P(1))
  have f1: "\<exists>x y. l1 = (store ! a)\<lparr>l_x := x, l_y := y\<rparr>" by (rule P(2))
  have pre3: "(\<forall>c\<in>set store. nonneg c) \<and> (\<forall>c\<in>set cw. nonneg c) \<and> nonneg (store ! a)
           \<and> (ct = Horizontal \<longrightarrow> l_w (store ! a) \<le> cols)"
    using D(2,3) na wc by blast
  from P(3) pre3 have
    Q1: "\<forall>c\<in>set s1. nonneg c" and Q2: "nonneg l1"
    and Q3: "getFirstCollision cw l1 = None"
    and Q4: "(\<forall>c\<in>set cw. 1 \<le> l_w c \<and> 1 \<le> l_h c) \<and> 1 \<le> l_w (store ! a)
               \<and> 1 \<le> l_h (store ! a) \<longrightarrow> blocked ct cw l1"
    and Q5: "ct = Horizontal \<longrightarrow> l_x l1 \<le> 0 \<or> l_x l1 + l_w l1 \<le> cols"
    using nov by blast+
  have st1: "\<not> static l1" using frame_xy_fields(4)[OF f1] a(3) by simp
  have st2: "\<not> static ?l2" using st1 by simp
  have w1: "l_w l1 = l_w (layout ! a)" and h1: "l_h l1 = l_h (layout ! a)"
    using frame_xy_fields(2,3)[OF f1] wa ha by simp_all
  have nocol: "\<And>c. c \<in> set cw \<Longrightarrow> \<not> collides c l1"
    using Q3 unfolding getFirstCollision_None by blast
  have keep: "\<And>b. b \<in> set pre \<Longrightarrow> ?out ! b = out ! b"
    using a(2) by (metis nth_list_update_neq)
  have here: "?out ! a = Some ?l2" using a(1) len by simp
  have incw: "\<And>c. c \<in> set ?cw \<longleftrightarrow> c \<in> set cw \<or> c = ?l2" by auto
  show ?thesis
  proof (rule compact_invI)
    show "only_xy layout s1" using o o1 by (rule only_xy_trans)
    show "\<forall>c\<in>set s1. nonneg c" by (rule Q1)
    show "\<forall>c\<in>set ?cw. nonneg c" using D(3) Q2 by simp
    show "length ?out = length layout" using len by simp
    show "\<forall>c\<in>set ?cw. \<forall>d\<in>set ?cw. collides c d \<longrightarrow> static c \<and> static d"
    proof (intro ballI impI)
      fix c d assume c: "c \<in> set ?cw" and d: "d \<in> set ?cw" and col: "collides c d"
      consider "c \<in> set cw" "d \<in> set cw" | "c \<in> set cw" "d = ?l2"
        | "c = ?l2" "d \<in> set cw" | "c = ?l2" "d = ?l2"
        using c d unfolding incw by blast
      then show "static c \<and> static d"
      proof cases
        case 1
        with D(5) col show ?thesis by blast
      next
        case 2
        with col have "collides c l1" by simp
        with nocol[OF 2(1)] show ?thesis by simp
      next
        case 3
        with col have "collides l1 d" by simp
        then have "collides d l1" by (simp add: collides_sym)
        with nocol[OF 3(2)] show ?thesis by simp
      next
        case 4
        with col collides_same_id[of ?l2 ?l2] show ?thesis by simp
      qed
    qed
    show "\<forall>c\<in>set ?cw. static c \<longrightarrow> (\<exists>b<length layout. static (layout ! b) \<and> c = layout ! b)"
    proof (intro ballI impI)
      fix c assume c: "c \<in> set ?cw" and s: "static c"
      then have "c \<in> set cw" using st2 unfolding incw by blast
      with D(6) s show "\<exists>b<length layout. static (layout ! b) \<and> c = layout ! b" by blast
    qed
    show "\<forall>b<length layout. static (layout ! b) \<longrightarrow> layout ! b \<in> set ?cw"
      using D(7) by simp
    show "\<forall>c\<in>set ?cw. \<not> static c \<longrightarrow> (\<exists>b\<in>set (pre @ [a]). ?out ! b = Some c)"
    proof (intro ballI impI)
      fix c assume c: "c \<in> set ?cw" and s: "\<not> static c"
      from c consider "c \<in> set cw" | "c = ?l2" unfolding incw by blast
      then show "\<exists>b\<in>set (pre @ [a]). ?out ! b = Some c"
      proof cases
        case 1
        with D(8) s obtain b where b: "b \<in> set pre" "out ! b = Some c" by blast
        then have "?out ! b = Some c" using keep by simp
        with b(1) show ?thesis by auto
      next
        case 2
        with here show ?thesis by simp
      qed
    qed
    show "\<forall>b\<in>set (pre @ [a]).
          (static (layout ! b) \<longrightarrow> ?out ! b = Some ((layout ! b)\<lparr>moved := False\<rparr>))
        \<and> (\<not> static (layout ! b) \<longrightarrow> (\<exists>c\<in>set ?cw. \<not> static c \<and> ?out ! b = Some c))"
    proof
      fix b assume b: "b \<in> set (pre @ [a])"
      show "(static (layout ! b) \<longrightarrow> ?out ! b = Some ((layout ! b)\<lparr>moved := False\<rparr>))
        \<and> (\<not> static (layout ! b) \<longrightarrow> (\<exists>c\<in>set ?cw. \<not> static c \<and> ?out ! b = Some c))"
      proof (cases "b = a")
        case True
        have "?l2 \<in> set ?cw" by simp
        with st2 here have E: "\<exists>c\<in>set ?cw. \<not> static c \<and> ?out ! a = Some c" by blast
        show ?thesis unfolding True
        proof (intro conjI impI)
          assume "static (layout ! a)"
          with nst show "?out ! a = Some ((layout ! a)\<lparr>moved := False\<rparr>)" by blast
        next
          show "\<exists>c\<in>set ?cw. \<not> static c \<and> ?out ! a = Some c" by (rule E)
        qed
      next
        case False
        then have bp: "b \<in> set pre" using b by simp
        have kb: "?out ! b = out ! b" by (rule keep[OF bp])
        from D(9) bp have
          R: "(static (layout ! b) \<longrightarrow> out ! b = Some ((layout ! b)\<lparr>moved := False\<rparr>))
          \<and> (\<not> static (layout ! b) \<longrightarrow> (\<exists>c\<in>set cw. \<not> static c \<and> out ! b = Some c))"
          by blast
        show ?thesis
        proof (intro conjI impI)
          assume "static (layout ! b)"
          with R show "?out ! b = Some ((layout ! b)\<lparr>moved := False\<rparr>)"
            unfolding kb by blast
        next
          assume "\<not> static (layout ! b)"
          with R obtain c where c: "c \<in> set cw" "\<not> static c" "out ! b = Some c" by blast
          have "c \<in> set ?cw" using c(1) by simp
          with c(2,3) show "\<exists>c\<in>set ?cw. \<not> static c \<and> ?out ! b = Some c"
            unfolding kb by blast
        qed
      qed
    qed
    show "(\<forall>l\<in>set layout. 1 \<le> l_w l \<and> 1 \<le> l_h l) \<longrightarrow>
          (\<forall>c\<in>set ?cw. 1 \<le> l_w c \<and> 1 \<le> l_h c)
        \<and> (\<forall>c\<in>set ?cw. \<not> static c \<longrightarrow> blocked ct ?cw c)"
    proof
      assume S: "\<forall>l\<in>set layout. 1 \<le> l_w l \<and> 1 \<le> l_h l"
      with D(10) have S1: "\<forall>c\<in>set cw. 1 \<le> l_w c \<and> 1 \<le> l_h c"
        and B1: "\<forall>c\<in>set cw. \<not> static c \<longrightarrow> blocked ct cw c" by blast+
      have sa: "1 \<le> l_w (layout ! a) \<and> 1 \<le> l_h (layout ! a)" using S mem by blast
      have "blocked ct cw l1" using Q4 S1 sa unfolding wa ha by blast
      then have b2: "blocked ct ?cw ?l2" using blocked_mono[of cw ?cw ct l1] by auto
      have S2: "\<forall>c\<in>set ?cw. 1 \<le> l_w c \<and> 1 \<le> l_h c"
        using S1 sa w1 h1 by simp
      have B2: "\<forall>c\<in>set ?cw. \<not> static c \<longrightarrow> blocked ct ?cw c"
      proof (intro ballI impI)
        fix c assume c: "c \<in> set ?cw" and s: "\<not> static c"
        from c consider "c \<in> set cw" | "c = ?l2" unfolding incw by blast
        then show "blocked ct ?cw c"
        proof cases
          case 1
          with B1 s have "blocked ct cw c" by blast
          then show ?thesis using blocked_mono[of cw ?cw ct c] by auto
        next
          case 2
          with b2 show ?thesis by simp
        qed
      qed
      from S2 B2 show "(\<forall>c\<in>set ?cw. 1 \<le> l_w c \<and> 1 \<le> l_h c)
        \<and> (\<forall>c\<in>set ?cw. \<not> static c \<longrightarrow> blocked ct ?cw c)" by blast
    qed
    show "ct = Horizontal \<longrightarrow>
          (\<forall>c\<in>set ?cw. \<not> static c \<longrightarrow> l_x c \<le> 0 \<or> l_x c + l_w c \<le> cols)"
    proof
      assume H: "ct = Horizontal"
      with D(11) have F1: "\<forall>c\<in>set cw. \<not> static c \<longrightarrow> l_x c \<le> 0 \<or> l_x c + l_w c \<le> cols"
        by blast
      from Q5 H have "l_x ?l2 \<le> 0 \<or> l_x ?l2 + l_w ?l2 \<le> cols" by simp
      with F1 show "\<forall>c\<in>set ?cw. \<not> static c \<longrightarrow> l_x c \<le> 0 \<or> l_x c + l_w c \<le> cols"
        by simp
    qed
  qed
qed

lemma compact_loop_inv:
  assumes d: "distinct (map (\<lambda>a. l_i (layout ! a)) sorted')"
    and sub: "set sorted' \<subseteq> {..<length layout}"
    and fuel: "length sorted' < fuel"
    and nov: "\<not> (ct = NoCompaction \<and> ao)"
    and W: "ct = Horizontal \<longrightarrow> (\<forall>l\<in>set layout. \<not> static l \<longrightarrow> l_w l \<le> cols)"
    and inv: "compact_inv layout ct cols pre store cw out"
    and rest: "set rest \<subseteq> {..<length layout}"
    and dis: "distinct (pre @ rest)"
  shows "\<exists>out' store' cw'.
           compact_loop fuel ct cols ao sorted' rest store cw out = Some out'
         \<and> compact_inv layout ct cols (pre @ rest) store' cw' out'"
  using inv rest dis
proof (induction rest arbitrary: pre store cw out)
  case Nil
  then show ?case by auto
next
  case (Cons a rest)
  note D = compact_invD[OF Cons.prems(1)]
  have a: "a < length layout" using Cons.prems(2) by simp
  have ap: "a \<notin> set pre" using Cons.prems(3) by simp
  have rest: "set rest \<subseteq> {..<length layout}" using Cons.prems(2) by simp
  have dis: "distinct ((pre @ [a]) @ rest)" using Cons.prems(3) by simp
  have e: "(pre @ [a]) @ rest = pre @ a # rest" by simp
  have subs: "set sorted' \<subseteq> {..<length store}"
    using sub only_xy_length[OF D(1)] by simp
  have ids: "map (\<lambda>a. l_i (store ! a)) sorted' = map (\<lambda>a. l_i (layout ! a)) sorted'"
    using D(1) sub by (rule ids_only_xy)
  have ds: "distinct (map (\<lambda>a. l_i (store ! a)) sorted')" unfolding ids by (rule d)
  show ?case
  proof (cases "static (store ! a)")
    case True
    let ?out1 = "out[a := Some ((store ! a)\<lparr>moved := False\<rparr>)]"
    have step: "compact_loop fuel ct cols ao sorted' (a # rest) store cw out =
                compact_loop fuel ct cols ao sorted' rest store cw ?out1"
      using True by (simp add: Let_def)
    have inv1: "compact_inv layout ct cols (pre @ [a]) store cw ?out1"
      using Cons.prems(1) a ap True by (rule compact_inv_static_step)
    from Cons.IH[OF inv1 rest dis] show ?thesis unfolding step e .
  next
    case False
    from compactItem_total[OF ds subs fuel, of cw "store ! a" ct cols ao]
    obtain s1 l1 where
      ci: "compactItem fuel cw (store ! a) ct cols store sorted' ao = Some (s1, l1)"
      by fastforce
    let ?l2 = "l1\<lparr>moved := False\<rparr>"
    let ?out1 = "out[a := Some ?l2]"
    have step: "compact_loop fuel ct cols ao sorted' (a # rest) store cw out =
                compact_loop fuel ct cols ao sorted' rest s1 (cw @ [?l2]) ?out1"
      using False ci by (simp add: Let_def)
    have inv1: "compact_inv layout ct cols (pre @ [a]) s1 (cw @ [?l2]) ?out1"
      using Cons.prems(1) a ap False ci subs nov W by (rule compact_inv_move_step)
    from Cons.IH[OF inv1 rest dis] show ?thesis unfolding step e .
  qed
qed

lemma compact_inv_init:
  assumes "\<forall>l\<in>set layout. nonneg l"
  shows "compact_inv layout ct cols [] layout (getStatics layout)
           (replicate (length layout) None)"
proof (rule compact_invI)
  show "only_xy layout layout" by (rule only_xy_refl)
  show "\<forall>c\<in>set layout. nonneg c" by (rule assms)
  show "\<forall>c\<in>set (getStatics layout). nonneg c" using assms by (simp add: getStatics_def)
  show "length (replicate (length layout) (None :: layoutItem option)) = length layout" by simp
  show "\<forall>c\<in>set (getStatics layout). \<forall>d\<in>set (getStatics layout).
          collides c d \<longrightarrow> static c \<and> static d"
    by (simp add: getStatics_def)
  show "\<forall>c\<in>set (getStatics layout).
          static c \<longrightarrow> (\<exists>b<length layout. static (layout ! b) \<and> c = layout ! b)"
  proof (intro ballI impI)
    fix c assume "c \<in> set (getStatics layout)" and s: "static c"
    then have "c \<in> set layout" by (simp add: getStatics_def)
    then obtain b where "b < length layout" "layout ! b = c" by (auto simp: in_set_conv_nth)
    with s show "\<exists>b<length layout. static (layout ! b) \<and> c = layout ! b" by blast
  qed
  show "\<forall>b<length layout. static (layout ! b) \<longrightarrow> layout ! b \<in> set (getStatics layout)"
    by (simp add: getStatics_def)
  show "\<forall>c\<in>set (getStatics layout). \<not> static c \<longrightarrow>
          (\<exists>a\<in>set []. replicate (length layout) None ! a = Some c)"
    by (simp add: getStatics_def)
  show "\<forall>a\<in>set [].
          (static (layout ! a) \<longrightarrow>
             replicate (length layout) None ! a = Some ((layout ! a)\<lparr>moved := False\<rparr>))
        \<and> (\<not> static (layout ! a) \<longrightarrow>
             (\<exists>c\<in>set (getStatics layout). \<not> static c
                \<and> replicate (length layout) None ! a = Some c))"
    by simp
  show "(\<forall>l\<in>set layout. 1 \<le> l_w l \<and> 1 \<le> l_h l) \<longrightarrow>
          (\<forall>c\<in>set (getStatics layout). 1 \<le> l_w c \<and> 1 \<le> l_h c)
        \<and> (\<forall>c\<in>set (getStatics layout). \<not> static c \<longrightarrow> blocked ct (getStatics layout) c)"
    by (simp add: getStatics_def)
  show "ct = Horizontal \<longrightarrow>
          (\<forall>c\<in>set (getStatics layout). \<not> static c \<longrightarrow> l_x c \<le> 0 \<or> l_x c + l_w c \<le> cols)"
    by (simp add: getStatics_def)
qed

text \<open>
  A layout is settled when nothing in it has a negative coordinate, a set flag
  \<^verbatim>\<open>moved\<close> or a size below one, only static items collide, no non-static item
  can be pulled one more cell towards the origin, and in horizontal mode every non-static
  item sits at column zero or ends within the columns.
\<close>

definition settled :: "compactType \<Rightarrow> int \<Rightarrow> layoutItem list \<Rightarrow> bool" where
  "settled ct cols L \<longleftrightarrow>
       (\<forall>c\<in>set L. nonneg c \<and> \<not> moved c \<and> 1 \<le> l_w c \<and> 1 \<le> l_h c)
     \<and> (\<forall>c\<in>set L. \<forall>d\<in>set L. collides c d \<longrightarrow> static c \<and> static d)
     \<and> (\<forall>c\<in>set L. \<not> static c \<longrightarrow> blocked ct L c)
     \<and> (ct = Horizontal \<longrightarrow> (\<forall>c\<in>set L. \<not> static c \<longrightarrow> l_x c \<le> 0 \<or> l_x c + l_w c \<le> cols))"

lemma compact_settles:
  assumes ids: "distinct (map l_i layout)"
    and nn: "\<forall>l\<in>set layout. nonneg l"
    and nov: "\<not> (ct = NoCompaction \<and> ao)"
    and W: "ct = Horizontal \<longrightarrow> (\<forall>l\<in>set layout. \<not> static l \<longrightarrow> l_w l \<le> cols)"
    and fuel: "length layout < fuel"
  shows "\<exists>out. compact tie fuel layout ct cols ao = Some out
           \<and> length out = length layout
           \<and> (\<forall>k<length layout. \<exists>x y.
                 out ! k = (layout ! k)\<lparr>l_x := x, l_y := y, moved := False\<rparr>)
           \<and> (\<forall>j<length layout. \<forall>k<length layout. collides (out ! j) (out ! k) \<longrightarrow>
                 static (out ! j) \<and> static (out ! k) \<and> collides (layout ! j) (layout ! k))
           \<and> ((\<forall>l\<in>set layout. 1 \<le> l_w l \<and> 1 \<le> l_h l) \<longrightarrow> settled ct cols out)"
proof -
  let ?n = "length layout"
  let ?s = "sortLayoutItems tie layout [0..<?n] ct"
  have set_s: "set ?s = {..<?n}" by (simp add: lessThan_atLeast0)
  have sub: "set ?s \<subseteq> {..<?n}" using set_s by simp
  have ds: "distinct ?s" by simp
  have d: "distinct (map (\<lambda>a. l_i (layout ! a)) ?s)"
    using ids ds sub by (rule distinct_ids_sorted)
  have fuel': "length ?s < fuel" using fuel by simp
  have len0: "length (replicate ?n (None :: layoutItem option)) = ?n" by simp
  have dis: "distinct ([] @ ?s)" by simp
  from compact_loop_inv[OF d sub fuel' nov W compact_inv_init[OF nn] sub dis]
  obtain out' store' cw' where
    run: "compact_loop fuel ct cols ao ?s ?s layout (getStatics layout) (replicate ?n None)
            = Some out'"
    and inv: "compact_inv layout ct cols ([] @ ?s) store' cw' out'"
    by blast
  note D = compact_invD[OF inv]
  from compact_loop_frame[OF d sub fuel' only_xy_refl sub len0, of ct cols ao
         "getStatics layout"] run
  have fr: "\<forall>a\<in>set ?s. \<exists>x y.
        out' ! a = Some ((layout ! a)\<lparr>l_x := x, l_y := y, moved := False\<rparr>)"
    by auto
  have len': "length out' = ?n" by (rule D(4))
  have each: "\<And>k. k < ?n \<Longrightarrow>
      \<exists>x y. out' ! k = Some ((layout ! k)\<lparr>l_x := x, l_y := y, moved := False\<rparr>)"
    using fr set_s by blast
  have "\<forall>v\<in>set out'. v \<noteq> None"
  proof
    fix v assume "v \<in> set out'"
    then obtain k where "k < length out'" "v = out' ! k" by (auto simp: in_set_conv_nth)
    with each[of k] len' show "v \<noteq> None" by auto
  qed
  then have th: "those out' = Some (map the out')" by (rule those_all_Some)
  let ?out = "map the out'"
  have res: "compact tie fuel layout ct cols ao = Some ?out"
    using run th by (simp add: compact_def Let_def)
  have len: "length ?out = ?n" using len' by simp
  have nth: "\<And>k. k < ?n \<Longrightarrow> out' ! k = Some (?out ! k)"
    using each len' by fastforce
  have frame: "\<forall>k<?n. \<exists>x y. ?out ! k = (layout ! k)\<lparr>l_x := x, l_y := y, moved := False\<rparr>"
  proof (intro allI impI)
    fix k assume k: "k < ?n"
    from each[OF k] obtain x y where
      e: "out' ! k = Some ((layout ! k)\<lparr>l_x := x, l_y := y, moved := False\<rparr>)" by blast
    have "?out ! k = (layout ! k)\<lparr>l_x := x, l_y := y, moved := False\<rparr>"
      using k len' e by simp
    then show "\<exists>x y. ?out ! k = (layout ! k)\<lparr>l_x := x, l_y := y, moved := False\<rparr>" by blast
  qed
  have fld: "\<And>k. k < ?n \<Longrightarrow> static (?out ! k) = static (layout ! k)
        \<and> l_w (?out ! k) = l_w (layout ! k) \<and> l_h (?out ! k) = l_h (layout ! k)
        \<and> \<not> moved (?out ! k)"
  proof -
    fix k assume k: "k < ?n"
    from frame k obtain x y where
      e: "?out ! k = (layout ! k)\<lparr>l_x := x, l_y := y, moved := False\<rparr>" by blast
    show "static (?out ! k) = static (layout ! k)
        \<and> l_w (?out ! k) = l_w (layout ! k) \<and> l_h (?out ! k) = l_h (layout ! k)
        \<and> \<not> moved (?out ! k)" unfolding e by simp
  qed
  have inpre: "\<And>k. k < ?n \<Longrightarrow> k \<in> set ([] @ ?s)" using set_s by simp
  have stat: "\<And>k. k < ?n \<Longrightarrow> static (layout ! k) \<Longrightarrow>
                ?out ! k = (layout ! k)\<lparr>moved := False\<rparr>"
  proof -
    fix k assume k: "k < ?n" and s: "static (layout ! k)"
    from D(9) inpre[OF k] s have "out' ! k = Some ((layout ! k)\<lparr>moved := False\<rparr>)" by blast
    then show "?out ! k = (layout ! k)\<lparr>moved := False\<rparr>" unfolding nth[OF k] by simp
  qed
  have mov: "\<And>k. k < ?n \<Longrightarrow> \<not> static (layout ! k) \<Longrightarrow>
                ?out ! k \<in> set cw' \<and> \<not> static (?out ! k)"
  proof -
    fix k assume k: "k < ?n" and s: "\<not> static (layout ! k)"
    from D(9) inpre[OF k] s obtain c where
      c: "c \<in> set cw'" "\<not> static c" "out' ! k = Some c" by blast
    from c(3) have "c = ?out ! k" unfolding nth[OF k] by simp
    with c(1,2) show "?out ! k \<in> set cw' \<and> \<not> static (?out ! k)" by simp
  qed
  have cwout: "\<And>c. c \<in> set cw' \<Longrightarrow> \<exists>k<?n. \<exists>m. ?out ! k = c\<lparr>moved := m\<rparr>"
  proof -
    fix c assume c: "c \<in> set cw'"
    show "\<exists>k<?n. \<exists>m. ?out ! k = c\<lparr>moved := m\<rparr>"
    proof (cases "static c")
      case True
      with D(6) c obtain b where b: "b < ?n" "static (layout ! b)" "c = layout ! b" by blast
      from stat[OF b(1,2)] have "?out ! b = c\<lparr>moved := False\<rparr>" unfolding b(3) .
      with b(1) show ?thesis by blast
    next
      case False
      with D(8) c obtain a where a: "a \<in> set ([] @ ?s)" "out' ! a = Some c" by blast
      then have an: "a < ?n" using set_s by simp
      from a(2) have "?out ! a = c" unfolding nth[OF an] by simp
      then have "?out ! a = c\<lparr>moved := moved c\<rparr>" by simp
      with an show ?thesis by blast
    qed
  qed
  have good: "\<forall>j<?n. \<forall>k<?n. collides (?out ! j) (?out ! k) \<longrightarrow>
                 static (?out ! j) \<and> static (?out ! k) \<and> collides (layout ! j) (layout ! k)"
  proof (intro allI impI)
    fix j k assume j: "j < ?n" and k: "k < ?n" and col: "collides (?out ! j) (?out ! k)"
    have incw: "\<And>i. i < ?n \<Longrightarrow> \<exists>c\<in>set cw'. \<exists>m. ?out ! i = c\<lparr>moved := m\<rparr>
                   \<and> static c = static (layout ! i)"
    proof -
      fix i assume i: "i < ?n"
      show "\<exists>c\<in>set cw'. \<exists>m. ?out ! i = c\<lparr>moved := m\<rparr> \<and> static c = static (layout ! i)"
      proof (cases "static (layout ! i)")
        case True
        from D(7) i True have "layout ! i \<in> set cw'" by blast
        with stat[OF i True] True show ?thesis by blast
      next
        case False
        from mov[OF i False] have m: "?out ! i \<in> set cw'" "\<not> static (?out ! i)" by blast+
        have "?out ! i = (?out ! i)\<lparr>moved := moved (?out ! i)\<rparr>" by simp
        with m False show ?thesis by blast
      qed
    qed
    from incw[OF j] obtain c m where
      c: "c \<in> set cw'" "?out ! j = c\<lparr>moved := m\<rparr>" "static c = static (layout ! j)" by blast
    from incw[OF k] obtain e m' where
      e: "e \<in> set cw'" "?out ! k = e\<lparr>moved := m'\<rparr>" "static e = static (layout ! k)" by blast
    from col have "collides c e" unfolding c(2) e(2) by simp
    with D(5) c(1) e(1) have se: "static c" "static e" by blast+
    then have sl: "static (layout ! j)" "static (layout ! k)" using c(3) e(3) by simp_all
    have "collides (layout ! j) (layout ! k)"
      using col unfolding stat[OF j sl(1)] stat[OF k sl(2)] by simp
    with sl fld[OF j] fld[OF k]
    show "static (?out ! j) \<and> static (?out ! k) \<and> collides (layout ! j) (layout ! k)"
      by simp
  qed
  have sett: "settled ct cols ?out" if S: "\<forall>l\<in>set layout. 1 \<le> l_w l \<and> 1 \<le> l_h l"
    unfolding settled_def
  proof (intro conjI ballI impI)
    fix c assume "c \<in> set ?out"
    then obtain k where k: "k < ?n" "c = ?out ! k" using len by (auto simp: in_set_conv_nth)
    show "nonneg c"
    proof (cases "static (layout ! k)")
      case True
      have "nonneg (layout ! k)" using nn k(1) by simp
      then show ?thesis unfolding k(2) stat[OF k(1) True] by simp
    next
      case False
      from mov[OF k(1) False] D(3) show ?thesis unfolding k(2) by blast
    qed
    show "\<not> moved c" unfolding k(2) using fld[OF k(1)] by blast
    have "1 \<le> l_w (layout ! k) \<and> 1 \<le> l_h (layout ! k)" using S k(1) by simp
    then show "1 \<le> l_w c" "1 \<le> l_h c" unfolding k(2) using fld[OF k(1)] by simp_all
  next
    fix c d assume "c \<in> set ?out" "d \<in> set ?out" and col: "collides c d"
    then obtain j k where j: "j < ?n" "c = ?out ! j" and k: "k < ?n" "d = ?out ! k"
      using len by (auto simp: in_set_conv_nth)
    from good j(1) k(1) col show "static c" "static d" unfolding j(2) k(2) by blast+
  next
    fix c assume "c \<in> set ?out" and ns: "\<not> static c"
    then obtain k where k: "k < ?n" "c = ?out ! k" using len by (auto simp: in_set_conv_nth)
    have nsl: "\<not> static (layout ! k)" using ns fld[OF k(1)] unfolding k(2) by simp
    from mov[OF k(1) nsl] have ccw: "c \<in> set cw'" unfolding k(2) by blast
    from D(10) S ccw ns have "blocked ct cw' c" by blast
    then consider "axis_coord ct c \<le> 0" | e where "e \<in> set cw'" "collides e (pulled ct c)"
      unfolding blocked_def by blast
    then show "blocked ct ?out c"
    proof cases
      case 1
      then show ?thesis by (simp add: blocked_def)
    next
      case 2
      from cwout[OF 2(1)] obtain i m where i: "i < ?n" "?out ! i = e\<lparr>moved := m\<rparr>" by blast
      have "collides (?out ! i) (pulled ct c)" unfolding i(2) using 2(2) by simp
      moreover have "?out ! i \<in> set ?out" using i(1) len by (metis nth_mem)
      ultimately show ?thesis unfolding blocked_def by blast
    qed
  next
    fix c assume H: "ct = Horizontal" and "c \<in> set ?out" and ns: "\<not> static c"
    then obtain k where k: "k < ?n" "c = ?out ! k" using len by (auto simp: in_set_conv_nth)
    have nsl: "\<not> static (layout ! k)" using ns fld[OF k(1)] unfolding k(2) by simp
    from mov[OF k(1) nsl] have ccw: "c \<in> set cw'" unfolding k(2) by blast
    from D(11) H ccw ns show "l_x c \<le> 0 \<or> l_x c + l_w c \<le> cols" by blast
  qed
  from res len frame good sett show ?thesis by blast
qed

section \<open>Compaction: no collisions\<close>

text \<open>
  C1 (as amended).  Let the layout have unique ids and no negative \<open>x\<close>, \<open>y\<close>, \<open>w\<close> or
  \<open>h\<close>, and in horizontal mode let no non-static item be wider than the column count.
  With mode vertical or horizontal and \<^verbatim>\<open>allowOverlap\<close> false (and a recursion
  bound above the length of the layout), \<^verbatim>\<open>compact\<close> returns an array in which
  two items collide only if both are static and the input items at the same two
  indices collided already.
\<close>

theorem compact_no_collisions:
  assumes "distinct (map l_i layout)"
    and "\<forall>l\<in>set layout. 0 \<le> l_x l \<and> 0 \<le> l_y l \<and> 0 \<le> l_w l \<and> 0 \<le> l_h l"
    and "ct = Vertical \<or> ct = Horizontal"
    and "ct = Horizontal \<longrightarrow> (\<forall>l\<in>set layout. \<not> static l \<longrightarrow> l_w l \<le> cols)"
    and "length layout < fuel"
  shows "\<exists>out. compact tie fuel layout ct cols False = Some out
           \<and> length out = length layout
           \<and> (\<forall>j<length layout. \<forall>k<length layout. collides (out ! j) (out ! k) \<longrightarrow>
                 static (out ! j) \<and> static (out ! k) \<and> collides (layout ! j) (layout ! k))"
proof -
  have nn: "\<forall>l\<in>set layout. nonneg l" using assms(2) by (simp add: nonneg_def)
  have nov: "\<not> (ct = NoCompaction \<and> False)" by simp
  from compact_settles[OF assms(1) nn nov assms(4,5)] show ?thesis by blast
qed

theorem compact_no_collisions_witness:
  "\<exists>out. compact inputOrder 3 [mkItem ''a'' 0 0 2 2 False, mkItem ''b'' 1 1 2 2 False] Vertical 12 False
            = Some out
         \<and> length out = length [mkItem ''a'' 0 0 2 2 False, mkItem ''b'' 1 1 2 2 False]
         \<and> (\<forall>j<length [mkItem ''a'' 0 0 2 2 False, mkItem ''b'' 1 1 2 2 False].
             \<forall>k<length [mkItem ''a'' 0 0 2 2 False, mkItem ''b'' 1 1 2 2 False].
               collides (out ! j) (out ! k) \<longrightarrow>
                 static (out ! j) \<and> static (out ! k)
               \<and> collides ([mkItem ''a'' 0 0 2 2 False, mkItem ''b'' 1 1 2 2 False] ! j)
                    ([mkItem ''a'' 0 0 2 2 False, mkItem ''b'' 1 1 2 2 False] ! k))"
proof -
  have h1: "distinct (map l_i [mkItem ''a'' 0 0 2 2 False, mkItem ''b'' 1 1 2 2 False])"
    by (simp add: mkItem_def)
  have h2: "\<forall>l\<in>set [mkItem ''a'' 0 0 2 2 False, mkItem ''b'' 1 1 2 2 False].
              0 \<le> l_x l \<and> 0 \<le> l_y l \<and> 0 \<le> l_w l \<and> 0 \<le> l_h l"
    by (simp add: mkItem_def)
  have h3: "Vertical = Vertical \<or> Vertical = Horizontal" by simp
  have h4: "Vertical = Horizontal \<longrightarrow>
      (\<forall>l\<in>set [mkItem ''a'' 0 0 2 2 False, mkItem ''b'' 1 1 2 2 False].
         \<not> static l \<longrightarrow> l_w l \<le> 12)" by simp
  have h5: "length [mkItem ''a'' 0 0 2 2 False, mkItem ''b'' 1 1 2 2 False] < 3" by simp
  show ?thesis by (rule compact_no_collisions[OF h1 h2 h3 h4 h5])
qed

text \<open>
  The claim as stated fails for an item with a negative \<open>y\<close>: the collision loop
  finds the item clear of the static item at the origin, and the final clamp to zero
  then moves it onto the static item.
\<close>

theorem compact_negative_y_counterexample:
  "\<forall>tie.
     compact tie 5 [mkItem ''S'' 0 0 1 1 True, mkItem ''A'' 0 (-3) 1 1 False] Vertical 12 False
       = Some [mkItem ''S'' 0 0 1 1 True, mkItem ''A'' 0 0 1 1 False]
     \<and> collides (mkItem ''S'' 0 0 1 1 True) (mkItem ''A'' 0 0 1 1 False)
     \<and> \<not> static (mkItem ''A'' 0 0 1 1 False)"
  by (intro allI) code_simp

section \<open>Compaction: a settled layout is a fixed point\<close>

text \<open>
  \<open>after ct a b\<close>: the comparator of the mode puts \<open>a\<close> behind \<open>b\<close>.  The sorted
  array never has an item in front of one it should be behind.
\<close>

definition after :: "compactType \<Rightarrow> layoutItem \<Rightarrow> layoutItem \<Rightarrow> bool" where
  "after ct a b =
     (case ct of Vertical \<Rightarrow> 0 < compareRowCol a b
               | Horizontal \<Rightarrow> 0 < compareColRow a b
               | NoCompaction \<Rightarrow> False)"

lemma sorted_sortLayoutItems:
  "sorted_wrt (\<lambda>a b. \<not> after ct (L ! a) (L ! b)) (sortLayoutItems tie L xs ct)"
proof (cases ct)
  case Vertical
  have "sorted_wrt (\<lambda>a b. \<not> 0 < compareRowCol (L ! a) (L ! b))
          (sort_cmp (\<lambda>a b. compareRowCol (L ! a) (L ! b)) xs)"
    by (rule sorted_sort_cmp) (auto simp: compareRowCol_def split: if_splits)
  then show ?thesis using Vertical
    by (simp add: sortLayoutItems_def sortLayoutItemsByRowCol_def after_def)
next
  case Horizontal
  have "sorted_wrt (\<lambda>a b. \<not> 0 < compareColRowTie (tie L xs) L a b)
          (sort_cmp (compareColRowTie (tie L xs) L) xs)"
    by (rule sorted_sort_cmp)
       (auto simp: compareColRowTie_def compareColRow_def split: if_splits)
  moreover have "\<And>a b. \<not> 0 < compareColRowTie (tie L xs) L a b \<Longrightarrow>
                   \<not> 0 < compareColRow (L ! a) (L ! b)"
    by (auto simp: compareColRowTie_def compareColRow_def split: if_splits)
  ultimately have "sorted_wrt (\<lambda>a b. \<not> 0 < compareColRow (L ! a) (L ! b))
          (sort_cmp (compareColRowTie (tie L xs) L) xs)"
    by (rule sorted_wrt_mono_rel[rotated]) blast
  then show ?thesis using Horizontal
    by (simp add: sortLayoutItems_def sortLayoutItemsByColRow_def after_def)
next
  case NoCompaction
  then show ?thesis by (simp add: sortLayoutItems_def after_def)
qed

lemma after_irrefl: "\<not> after ct a a"
  by (cases ct) (simp_all add: after_def compareRowCol_def compareColRow_def)

text \<open>
  An item that collides with \<open>l\<close> pulled one cell towards the origin, but not with \<open>l\<close>,
  ends where \<open>l\<close> begins; if its size is at least one it begins before \<open>l\<close>, so the sort
  puts it in front of \<open>l\<close>.
\<close>

lemma blocker_touches:
  assumes "collides c (pulled ct l)" "\<not> collides c l"
  shows "ct \<noteq> NoCompaction"
    and "ct = Vertical \<Longrightarrow> l_y c + l_h c = l_y l"
    and "ct = Horizontal \<Longrightarrow> l_x c + l_w c = l_x l"
proof -
  show "ct \<noteq> NoCompaction" using assms by (auto simp: pulled_def)
  show "l_y c + l_h c = l_y l" if "ct = Vertical"
    using assms that by (simp add: pulled_def collides_def split: if_splits)
  show "l_x c + l_w c = l_x l" if "ct = Horizontal"
    using assms that by (simp add: pulled_def collides_def split: if_splits)
qed

lemma blocker_before:
  assumes "collides c (pulled ct l)" "\<not> collides c l" "1 \<le> l_w c" "1 \<le> l_h c"
  shows "after ct l c"
proof (cases ct)
  case Vertical
  from blocker_touches(2)[OF assms(1,2) Vertical] assms(4) have "l_y c < l_y l" by simp
  then show ?thesis using Vertical by (simp add: after_def compareRowCol_def)
next
  case Horizontal
  from blocker_touches(3)[OF assms(1,2) Horizontal] assms(3) have "l_x c < l_x l" by simp
  then show ?thesis using Horizontal by (simp add: after_def compareColRow_def)
next
  case NoCompaction
  with blocker_touches(1)[OF assms(1,2)] show ?thesis by simp
qed

text \<open>
  When the item collides with no non-static item of the sorted array,
  \<^verbatim>\<open>resolveCompactionCollision\<close> pushes nothing and only sets the coordinate.
\<close>

lemma resolveCompactionCollision_scan_quiet:
  assumes "\<forall>b\<in>set lay. \<not> static (store ! b) \<longrightarrow> \<not> collides (ref_get store item) (store ! b)"
  shows "resolveCompactionCollision_scan n store lay item m ax i = Some store"
proof (induction "length lay - i" arbitrary: i)
  case 0
  then show ?case by (subst resolveCompactionCollision_scan.simps) simp
next
  case (Suc d)
  then have i: "i < length lay" and d: "d = length lay - (i + 1)" by simp_all
  have mem: "lay ! i \<in> set lay" using i by simp
  have ih: "resolveCompactionCollision_scan n store lay item m ax (i + 1) = Some store"
    using Suc.hyps(1)[OF d] .
  have nc: "\<not> static (store ! (lay ! i)) \<Longrightarrow> \<not> collides (ref_get store item) (store ! (lay ! i))"
    using assms mem by blast
  show ?case
    using i ih nc by (subst resolveCompactionCollision_scan.simps) (simp add: Let_def)
qed

lemma resolveCompactionCollision_quiet:
  assumes "\<forall>b\<in>set lay. \<not> static (store ! b) \<longrightarrow>
             \<not> collides (axis_set ax (axis_get ax l + 1) l) (store ! b)"
  shows "resolveCompactionCollision (Suc n) store lay (Detached l) m ax =
           Some (store, Detached (axis_set ax m (axis_set ax (axis_get ax l + 1) l)))"
proof -
  have q: "\<And>i. resolveCompactionCollision_scan n store lay
              (Detached (axis_set ax (axis_get ax l + 1) l)) m ax i = Some store"
    using assms by (intro resolveCompactionCollision_scan_quiet) (simp add: ref_get_def)
  show ?thesis by (simp add: ref_map_def q Let_def)
qed

text \<open>
  \<^verbatim>\<open>compactItem\<close> returns the item as it is when the item has no negative
  coordinate, collides with nothing, cannot be pulled further, and (in horizontal mode)
  is at column zero or ends within the columns: it is pulled by one cell into its
  blocker and pushed back to where it was.
\<close>

lemma compactItem_fix:
  assumes nn: "nonneg l"
    and clear: "\<forall>c\<in>set cw. \<not> collides c l"
    and quiet: "\<forall>b\<in>set lay. \<not> static (store ! b) \<longrightarrow> \<not> collides l (store ! b)"
    and bl: "blocked ct cw l"
    and fits: "ct = Horizontal \<longrightarrow> l_x l \<le> 0 \<or> l_x l + l_w l \<le> cols"
  shows "compactItem (Suc n) cw l ct cols store lay ao = Some (store, l)"
proof -
  have clamp: "l\<lparr>l_y := max (l_y l) 0, l_x := max (l_x l) 0\<rparr> = l"
    using nn by (simp add: nonneg_def max_def)
  have gfc: "getFirstCollision cw l = None"
    using clear by (simp add: getFirstCollision_None)
  have R0: "resolveLoop (Suc n) cw store lay l ct cols ao = Some (store, l)"
    using gfc by (rule resolveLoop_None)
  have key: "resolveLoop (Suc n) cw store lay (compactStart ct cw l) ct cols ao
               = Some (store, l)"
  proof (cases "axis_coord ct l \<le> 0")
    case True
    have "compactStart ct cw l = l"
    proof (cases ct)
      case Vertical
      with True nn have y0: "l_y l = 0" by (simp add: axis_coord_def nonneg_def)
      have "min (bottom cw) (l_y l) = l_y l" using bottom_nonneg[of cw] y0 by simp
      then have "l\<lparr>l_y := min (bottom cw) (l_y l)\<rparr> = l" by simp
      moreover have "moveUp cw l = l" using y0 by (intro moveUp_zero) simp
      ultimately show ?thesis using Vertical by (simp add: compactStart_def)
    next
      case Horizontal
      with True have "l_x l \<le> 0" by (simp add: axis_coord_def)
      then have "moveLeft cw l = l" by (rule moveLeft_zero)
      then show ?thesis using Horizontal by (simp add: compactStart_def)
    next
      case NoCompaction
      then show ?thesis by (simp add: compactStart_def)
    qed
    then show ?thesis using R0 by simp
  next
    case False
    with bl obtain c where c: "c \<in> set cw" "collides c (pulled ct l)"
      unfolding blocked_def by blast
    have ncl: "\<not> collides c l" using clear c(1) by blast
    show ?thesis
    proof (cases ct)
      case NoCompaction
      with blocker_touches(1)[OF c(2) ncl] show ?thesis by simp
    next
      case Vertical
      let ?p = "l\<lparr>l_y := l_y l - 1\<rparr>"
      have pp: "pulled ct l = ?p" using Vertical by (simp add: pulled_def)
      have pos: "0 < l_y l" using False Vertical by (simp add: axis_coord_def)
      have "l_y c + l_h c = l_y l" using blocker_touches(2)[OF c(2) ncl Vertical] .
      with bottom_ge[OF c(1)] have "l_y l \<le> bottom cw" by simp
      then have "min (bottom cw) (l_y l) = l_y l" by simp
      then have e0: "l\<lparr>l_y := min (bottom cw) (l_y l)\<rparr> = l" by simp
      have hit: "getFirstCollision cw ?p \<noteq> None"
        using c unfolding pp by (auto simp: getFirstCollision_None)
      have mu: "moveUp cw l = ?p" using pos gfc hit by (rule moveUp_one)
      have cs: "compactStart ct cw l = ?p" using Vertical e0 mu by (simp add: compactStart_def)
      from hit obtain c' where gc': "getFirstCollision cw ?p = Some c'" by blast
      from getFirstCollision_Some[OF gc'] have c': "c' \<in> set cw" "collides c' (pulled ct l)"
        unfolding pp by blast+
      have ncl': "\<not> collides c' l" using clear c'(1) by blast
      have t: "l_y c' + l_h c' = l_y l" using blocker_touches(2)[OF c'(2) ncl' Vertical] .
      have nov: "\<not> (ct = NoCompaction \<and> ao)" using Vertical by simp
      have bump: "axis_set AxisY (axis_get AxisY ?p + 1) ?p = l"
        by (simp add: axis_set_def axis_get_def)
      have q: "\<forall>b\<in>set lay. \<not> static (store ! b) \<longrightarrow>
                 \<not> collides (axis_set AxisY (axis_get AxisY ?p + 1) ?p) (store ! b)"
        unfolding bump by (rule quiet)
      have rcc: "resolveCompactionCollision (Suc n) store lay (Detached ?p)
                   (l_y c' + l_h c') AxisY
                 = Some (store, Detached (axis_set AxisY (l_y c' + l_h c') l))"
        using resolveCompactionCollision_quiet[OF q, of n "l_y c' + l_h c'"]
        unfolding bump .
      have pu: "pushed ct cols cw c' ?p = l"
        using Vertical t by (simp add: pushed_def Let_def)
      have "resolveLoop (Suc n) cw store lay ?p ct cols ao
              = resolveLoop (Suc n) cw store lay (pushed ct cols cw c' ?p) ct cols ao"
        unfolding resolveLoop_push[OF gc' nov] using Vertical rcc by simp
      then show ?thesis unfolding cs pu using R0 by simp
    next
      case Horizontal
      let ?p = "l\<lparr>l_x := l_x l - 1\<rparr>"
      have pp: "pulled ct l = ?p" using Horizontal by (simp add: pulled_def)
      have pos: "0 < l_x l" using False Horizontal by (simp add: axis_coord_def)
      have hit: "getFirstCollision cw ?p \<noteq> None"
        using c unfolding pp by (auto simp: getFirstCollision_None)
      have ml: "moveLeft cw l = ?p" using pos gfc hit by (rule moveLeft_one)
      have cs: "compactStart ct cw l = ?p" using Horizontal ml by (simp add: compactStart_def)
      from hit obtain c' where gc': "getFirstCollision cw ?p = Some c'" by blast
      from getFirstCollision_Some[OF gc'] have c': "c' \<in> set cw" "collides c' (pulled ct l)"
        unfolding pp by blast+
      have ncl': "\<not> collides c' l" using clear c'(1) by blast
      have t: "l_x c' + l_w c' = l_x l" using blocker_touches(3)[OF c'(2) ncl' Horizontal] .
      have nov: "\<not> (ct = NoCompaction \<and> ao)" using Horizontal by simp
      have bump: "axis_set AxisX (axis_get AxisX ?p + 1) ?p = l"
        by (simp add: axis_set_def axis_get_def)
      have q: "\<forall>b\<in>set lay. \<not> static (store ! b) \<longrightarrow>
                 \<not> collides (axis_set AxisX (axis_get AxisX ?p + 1) ?p) (store ! b)"
        unfolding bump by (rule quiet)
      have rcc: "resolveCompactionCollision (Suc n) store lay (Detached ?p)
                   (l_x c' + l_w c') AxisX
                 = Some (store, Detached (axis_set AxisX (l_x c' + l_w c') l))"
        using resolveCompactionCollision_quiet[OF q, of n "l_x c' + l_w c'"]
        unfolding bump .
      have inb: "l_x l + l_w l \<le> cols" using fits Horizontal pos by auto
      have pu: "pushed ct cols cw c' ?p = l"
        using Horizontal t inb by (simp add: pushed_def Let_def)
      have "resolveLoop (Suc n) cw store lay ?p ct cols ao
              = resolveLoop (Suc n) cw store lay (pushed ct cols cw c' ?p) ct cols ao"
        unfolding resolveLoop_push[OF gc' nov] using Horizontal rcc by simp
      then show ?thesis unfolding cs pu using R0 by simp
    qed
  qed
  show ?thesis unfolding compactItem_alt key using clamp by simp
qed

lemma compactItem_overlap:
  assumes "ct = NoCompaction" "ao" "nonneg l"
  shows "compactItem fuel cw l ct cols store lay ao = Some (store, l)"
proof -
  have clamp: "l\<lparr>l_y := max (l_y l) 0, l_x := max (l_x l) 0\<rparr> = l"
    using assms(3) by (simp add: nonneg_def max_def)
  have cs: "compactStart ct cw l = l" using assms(1) by (simp add: compactStart_def)
  have "resolveLoop fuel cw store lay l ct cols ao = Some (store, l)"
    using assms(1,2) by (intro resolveLoop_overlap) simp
  then show ?thesis unfolding compactItem_alt cs using clamp by simp
qed

text \<open>
  The array \<^verbatim>\<open>compareWith\<close> after the items \<open>pre\<close> have been processed, when
  every item was returned as it is: the static items, then the non-static items of
  \<open>pre\<close>, each with the flag \<^verbatim>\<open>moved\<close> cleared.
\<close>

definition cwOf :: "layoutItem list \<Rightarrow> nat list \<Rightarrow> layoutItem list" where
  "cwOf L pre =
     getStatics L @ map (\<lambda>a. (L ! a)\<lparr>moved := False\<rparr>) (filter (\<lambda>a. \<not> static (L ! a)) pre)"

lemma compact_loop_fix:
  assumes step: "\<And>a pre rest. pre @ a # rest = sorted' \<Longrightarrow> \<not> static (L ! a) \<Longrightarrow>
             compactItem fuel (cwOf L pre) (L ! a) ct cols L sorted' ao = Some (L, L ! a)"
    and split: "pre @ rest = sorted'"
    and sub: "set sorted' \<subseteq> {..<length L}"
    and len: "length out = length L"
  shows "\<exists>out'. compact_loop fuel ct cols ao sorted' rest L (cwOf L pre) out = Some out'
           \<and> length out' = length L
           \<and> (\<forall>a<length L. a \<notin> set rest \<longrightarrow> out' ! a = out ! a)
           \<and> (\<forall>a\<in>set rest. out' ! a = Some ((L ! a)\<lparr>moved := False\<rparr>))"
  using split len
proof (induction rest arbitrary: pre out)
  case Nil
  then show ?case by simp
next
  case (Cons a rest)
  have a: "a < length L" using Cons.prems(1) sub by auto
  have split1: "(pre @ [a]) @ rest = sorted'" using Cons.prems(1) by simp
  let ?v = "(L ! a)\<lparr>moved := False\<rparr>"
  let ?out1 = "out[a := Some ?v]"
  have len1: "length ?out1 = length L" using Cons.prems(2) by simp
  have run: "compact_loop fuel ct cols ao sorted' (a # rest) L (cwOf L pre) out =
             compact_loop fuel ct cols ao sorted' rest L (cwOf L (pre @ [a])) ?out1"
  proof (cases "static (L ! a)")
    case True
    then have "cwOf L (pre @ [a]) = cwOf L pre" by (simp add: cwOf_def)
    then show ?thesis using True by (simp add: Let_def)
  next
    case False
    have ci: "compactItem fuel (cwOf L pre) (L ! a) ct cols L sorted' ao = Some (L, L ! a)"
      using Cons.prems(1) False by (rule step)
    have "cwOf L (pre @ [a]) = cwOf L pre @ [?v]" using False by (simp add: cwOf_def)
    then show ?thesis using False ci by (simp add: Let_def)
  qed
  from Cons.IH[OF split1 len1] obtain out' where out':
    "compact_loop fuel ct cols ao sorted' rest L (cwOf L (pre @ [a])) ?out1 = Some out'"
    "length out' = length L"
    "\<forall>b<length L. b \<notin> set rest \<longrightarrow> out' ! b = ?out1 ! b"
    "\<forall>b\<in>set rest. out' ! b = Some ((L ! b)\<lparr>moved := False\<rparr>)"
    by blast
  have here: "out' ! a = Some ?v"
  proof (cases "a \<in> set rest")
    case True
    with out'(4) show ?thesis by blast
  next
    case False
    with out'(3) a have "out' ! a = ?out1 ! a" by blast
    also have "\<dots> = Some ?v" using a Cons.prems(2) by simp
    finally show ?thesis .
  qed
  have keep: "\<forall>b<length L. b \<notin> set (a # rest) \<longrightarrow> out' ! b = out ! b"
    using out'(3) by auto
  have all: "\<forall>b\<in>set (a # rest). out' ! b = Some ((L ! b)\<lparr>moved := False\<rparr>)"
    using here out'(4) by auto
  from out'(1,2) keep all show ?case unfolding run by blast
qed

lemma compact_fix:
  assumes step: "\<And>a pre rest.
             pre @ a # rest = sortLayoutItems tie L [0..<length L] ct \<Longrightarrow> \<not> static (L ! a) \<Longrightarrow>
             compactItem fuel (cwOf L pre) (L ! a) ct cols L
               (sortLayoutItems tie L [0..<length L] ct) ao = Some (L, L ! a)"
  shows "compact tie fuel L ct cols ao = Some (map (\<lambda>l. l\<lparr>moved := False\<rparr>) L)"
proof -
  let ?n = "length L"
  let ?s = "sortLayoutItems tie L [0..<?n] ct"
  have set_s: "set ?s = {..<?n}" by (simp add: lessThan_atLeast0)
  have sub: "set ?s \<subseteq> {..<?n}" using set_s by simp
  have split: "[] @ ?s = ?s" by simp
  have len0: "length (replicate ?n (None :: layoutItem option)) = ?n" by simp
  have cw0: "cwOf L [] = getStatics L" by (simp add: cwOf_def)
  have "\<exists>out'. compact_loop fuel ct cols ao ?s ?s L (cwOf L []) (replicate ?n None) = Some out'
           \<and> length out' = length L
           \<and> (\<forall>a<length L. a \<notin> set ?s \<longrightarrow> out' ! a = replicate ?n None ! a)
           \<and> (\<forall>a\<in>set ?s. out' ! a = Some ((L ! a)\<lparr>moved := False\<rparr>))"
  proof (rule compact_loop_fix)
    fix a pre rest
    assume "pre @ a # rest = ?s" "\<not> static (L ! a)"
    then show "compactItem fuel (cwOf L pre) (L ! a) ct cols L ?s ao = Some (L, L ! a)"
      by (rule step)
  next
    show "[] @ ?s = ?s" by simp
    show "set ?s \<subseteq> {..<?n}" by (rule sub)
    show "length (replicate ?n (None :: layoutItem option)) = ?n" by simp
  qed
  then obtain out' where out':
    "compact_loop fuel ct cols ao ?s ?s L (getStatics L) (replicate ?n None) = Some out'"
    "length out' = ?n"
    "\<forall>a\<in>set ?s. out' ! a = Some ((L ! a)\<lparr>moved := False\<rparr>)"
    unfolding cw0 by blast
  have each: "\<And>k. k < ?n \<Longrightarrow> out' ! k = Some ((L ! k)\<lparr>moved := False\<rparr>)"
    using out'(3) set_s by blast
  have "out' = map (\<lambda>l. Some (l\<lparr>moved := False\<rparr>)) L"
    using out'(2) each by (intro nth_equalityI) simp_all
  then have "those out' = Some (map (\<lambda>l. l\<lparr>moved := False\<rparr>) L)"
    using those_all_Some[of out'] by (auto simp: comp_def)
  with out'(1) show ?thesis by (simp add: compact_def Let_def)
qed

lemma unmoved_id: "\<not> moved l \<Longrightarrow> l\<lparr>moved := False\<rparr> = l"
  by simp

lemma settled_fix:
  assumes S: "settled ct cols L"
  shows "compact tie (Suc n) L ct cols ao = Some L"
proof -
  let ?n = "length L"
  let ?s = "sortLayoutItems tie L [0..<?n] ct"
  have set_s: "set ?s = {..<?n}" by (simp add: lessThan_atLeast0)
  have P1: "\<And>c. c \<in> set L \<Longrightarrow> nonneg c \<and> \<not> moved c \<and> 1 \<le> l_w c \<and> 1 \<le> l_h c"
    using S unfolding settled_def by blast
  have P2: "\<And>c d. c \<in> set L \<Longrightarrow> d \<in> set L \<Longrightarrow> collides c d \<Longrightarrow> static c \<and> static d"
    using S unfolding settled_def by blast
  have P3: "\<And>c. c \<in> set L \<Longrightarrow> \<not> static c \<Longrightarrow> blocked ct L c"
    using S unfolding settled_def by blast
  have P4: "\<And>c. ct = Horizontal \<Longrightarrow> c \<in> set L \<Longrightarrow> \<not> static c \<Longrightarrow>
               l_x c \<le> 0 \<or> l_x c + l_w c \<le> cols"
    using S unfolding settled_def by blast
  have um: "\<And>b. b < ?n \<Longrightarrow> (L ! b)\<lparr>moved := False\<rparr> = L ! b"
    using P1 by (intro unmoved_id) simp
  have srt: "sorted_wrt (\<lambda>a b. \<not> after ct (L ! a) (L ! b)) ?s"
    by (rule sorted_sortLayoutItems)
  have "compact tie (Suc n) L ct cols ao = Some (map (\<lambda>l. l\<lparr>moved := False\<rparr>) L)"
  proof (rule compact_fix)
    fix a pre rest
    assume split: "pre @ a # rest = ?s" and ns: "\<not> static (L ! a)"
    have mem_s: "set pre \<union> {a} \<union> set rest = {..<?n}"
      using set_s unfolding split[symmetric] by auto
    have a: "a < ?n" using mem_s by auto
    have pre: "\<And>b. b \<in> set pre \<Longrightarrow> b < ?n" using mem_s by auto
    have la: "L ! a \<in> set L" using a by simp
    have cwmem: "\<And>c. c \<in> set (cwOf L pre) \<longleftrightarrow>
        (c \<in> set L \<and> static c) \<or> (\<exists>b\<in>set pre. \<not> static (L ! b) \<and> c = L ! b)"
    proof -
      fix c
      have "c \<in> set (cwOf L pre) \<longleftrightarrow>
              (c \<in> set L \<and> static c)
            \<or> (\<exists>b\<in>set pre. \<not> static (L ! b) \<and> c = (L ! b)\<lparr>moved := False\<rparr>)"
        by (auto simp: cwOf_def getStatics_def)
      also have "\<dots> \<longleftrightarrow> (c \<in> set L \<and> static c) \<or> (\<exists>b\<in>set pre. \<not> static (L ! b) \<and> c = L ! b)"
        using um pre by auto
      finally show "c \<in> set (cwOf L pre) \<longleftrightarrow>
        (c \<in> set L \<and> static c) \<or> (\<exists>b\<in>set pre. \<not> static (L ! b) \<and> c = L ! b)" .
    qed
    have cwsub: "\<And>c. c \<in> set (cwOf L pre) \<Longrightarrow> c \<in> set L"
      unfolding cwmem using pre by auto
    have nn: "nonneg (L ! a)" using P1[OF la] by blast
    have clear: "\<forall>c\<in>set (cwOf L pre). \<not> collides c (L ! a)"
    proof
      fix c assume "c \<in> set (cwOf L pre)"
      then have "c \<in> set L" by (rule cwsub)
      from P2[OF this la] ns show "\<not> collides c (L ! a)" by blast
    qed
    have quiet: "\<forall>b\<in>set ?s. \<not> static (L ! b) \<longrightarrow> \<not> collides (L ! a) (L ! b)"
    proof (intro ballI impI)
      fix b assume "b \<in> set ?s"
      then have "L ! b \<in> set L" using set_s by simp
      from P2[OF la this] ns show "\<not> collides (L ! a) (L ! b)" by blast
    qed
    have bl: "blocked ct (cwOf L pre) (L ! a)"
    proof (cases "axis_coord ct (L ! a) \<le> 0")
      case True
      then show ?thesis by (simp add: blocked_def)
    next
      case False
      with P3[OF la ns] obtain c where c: "c \<in> set L" "collides c (pulled ct (L ! a))"
        unfolding blocked_def by blast
      from c(1) obtain b where b: "b < ?n" "c = L ! b" by (auto simp: in_set_conv_nth)
      have ncl: "\<not> collides c (L ! a)" using P2[OF c(1) la] ns by blast
      have sz: "1 \<le> l_w c" "1 \<le> l_h c" using P1[OF c(1)] by blast+
      have aft: "after ct (L ! a) (L ! b)"
        using blocker_before[OF c(2) ncl sz] unfolding b(2) .
      have "\<forall>x\<in>set rest. \<not> after ct (L ! a) (L ! x)"
        using srt unfolding split[symmetric] by (simp add: sorted_wrt_append)
      with aft have "b \<notin> set rest" by blast
      moreover have "b \<noteq> a" using aft after_irrefl[of ct "L ! a"] by auto
      ultimately have bp: "b \<in> set pre" using mem_s b(1) by auto
      have "c \<in> set (cwOf L pre)" unfolding cwmem using c(1) bp b(2) by blast
      with c(2) show ?thesis unfolding blocked_def by blast
    qed
    have fits: "ct = Horizontal \<longrightarrow> l_x (L ! a) \<le> 0 \<or> l_x (L ! a) + l_w (L ! a) \<le> cols"
      using P4[OF _ la ns] by blast
    show "compactItem (Suc n) (cwOf L pre) (L ! a) ct cols L ?s ao = Some (L, L ! a)"
      using nn clear quiet bl fits by (rule compactItem_fix)
  qed
  moreover have "map (\<lambda>l. l\<lparr>moved := False\<rparr>) L = L"
    using P1 by (intro map_idI unmoved_id) blast
  ultimately show ?thesis by simp
qed

lemma overlap_fix:
  assumes "\<forall>l\<in>set L. nonneg l"
  shows "compact tie fuel L NoCompaction cols True = Some (map (\<lambda>l. l\<lparr>moved := False\<rparr>) L)"
proof (rule compact_fix)
  fix a pre rest
  assume split: "pre @ a # rest = sortLayoutItems tie L [0..<length L] NoCompaction"
  have "set (sortLayoutItems tie L [0..<length L] NoCompaction) = {..<length L}"
    by (simp add: lessThan_atLeast0)
  then have "a < length L" unfolding split[symmetric] by auto
  then have "nonneg (L ! a)" using assms by simp
  then show "compactItem fuel (cwOf L pre) (L ! a) NoCompaction cols L
               (sortLayoutItems tie L [0..<length L] NoCompaction) True = Some (L, L ! a)"
    by (intro compactItem_overlap) simp_all
qed

section \<open>Compaction: idempotence\<close>

text \<open>
  C4 (as amended).  Let the layout have unique ids, no negative \<open>x\<close> or \<open>y\<close>, and
  \<open>w\<close> and \<open>h\<close> at least one, and in horizontal mode let no non-static item be wider
  than the column count.  For every mode, column count and overlap flag (and a recursion
  bound above the length of the layout), \<^verbatim>\<open>compact\<close> returns a layout that
  \<^verbatim>\<open>compact\<close>, applied with the same arguments, returns unchanged.
\<close>

theorem compact_idempotent:
  assumes "distinct (map l_i layout)"
    and "\<forall>l\<in>set layout. 0 \<le> l_x l \<and> 0 \<le> l_y l \<and> 1 \<le> l_w l \<and> 1 \<le> l_h l"
    and "ct = Horizontal \<longrightarrow> (\<forall>l\<in>set layout. \<not> static l \<longrightarrow> l_w l \<le> cols)"
    and "length layout < fuel"
  shows "\<exists>out. compact tie fuel layout ct cols allowOverlap = Some out
           \<and> compact tie fuel out ct cols allowOverlap = Some out"
proof (cases "ct = NoCompaction \<and> allowOverlap")
  case True
  let ?u = "\<lambda>l::layoutItem. l\<lparr>moved := False\<rparr>"
  have nn: "\<forall>l\<in>set layout. nonneg l" using assms(2) by (auto simp: nonneg_def)
  have nn': "\<forall>l\<in>set (map ?u layout). nonneg l" using nn by simp
  have 1: "compact tie fuel layout ct cols allowOverlap = Some (map ?u layout)"
    using overlap_fix[OF nn] True by simp
  have "compact tie fuel (map ?u layout) ct cols allowOverlap = Some (map ?u (map ?u layout))"
    using overlap_fix[OF nn'] True by simp
  also have "map ?u (map ?u layout) = map ?u layout" by simp
  finally show ?thesis using 1 by blast
next
  case False
  have nn: "\<forall>l\<in>set layout. nonneg l" using assms(2) by (auto simp: nonneg_def)
  have sz: "\<forall>l\<in>set layout. 1 \<le> l_w l \<and> 1 \<le> l_h l" using assms(2) by blast
  from compact_settles[OF assms(1) nn False assms(3,4)] sz obtain out where
    out: "compact tie fuel layout ct cols allowOverlap = Some out" "settled ct cols out"
    by blast
  from assms(4) obtain m where m: "fuel = Suc m" by (cases fuel) auto
  have "compact tie fuel out ct cols allowOverlap = Some out"
    unfolding m using out(2) by (rule settled_fix)
  with out(1) show ?thesis by blast
qed

theorem compact_idempotent_witness:
  "\<exists>out. compact inputOrder 3 [mkItem ''a'' 0 0 2 2 False, mkItem ''b'' 1 1 2 2 False] Vertical 12 False
            = Some out
         \<and> compact inputOrder 3 out Vertical 12 False = Some out"
proof -
  have h1: "distinct (map l_i [mkItem ''a'' 0 0 2 2 False, mkItem ''b'' 1 1 2 2 False])"
    by (simp add: mkItem_def)
  have h2: "\<forall>l\<in>set [mkItem ''a'' 0 0 2 2 False, mkItem ''b'' 1 1 2 2 False].
              0 \<le> l_x l \<and> 0 \<le> l_y l \<and> 1 \<le> l_w l \<and> 1 \<le> l_h l"
    by (simp add: mkItem_def)
  have h3: "Vertical = Horizontal \<longrightarrow>
      (\<forall>l\<in>set [mkItem ''a'' 0 0 2 2 False, mkItem ''b'' 1 1 2 2 False].
         \<not> static l \<longrightarrow> l_w l \<le> 12)" by simp
  have h4: "length [mkItem ''a'' 0 0 2 2 False, mkItem ''b'' 1 1 2 2 False] < 3" by simp
  show ?thesis by (rule compact_idempotent[OF h1 h2 h3 h4])
qed

text \<open>
  The claim as stated fails for an item of height zero: in the first pass the item \<open>P\<close>
  is pulled up into \<open>R\<close>, which has height zero, and is pushed back below it; in the
  second pass \<open>P\<close> is sorted in front of \<open>R\<close> and rises to row zero, and \<open>R\<close> is then
  pushed below \<open>P\<close>.
\<close>

theorem compact_zero_height_counterexample:
  "\<forall>tie.
     compact tie 5
       [mkItem ''S'' 2 0 1 2 True, mkItem ''R'' 1 1 2 0 False, mkItem ''P'' 0 5 2 3 False]
       Vertical 12 False
       = Some [mkItem ''S'' 2 0 1 2 True, mkItem ''R'' 1 2 2 0 False, mkItem ''P'' 0 2 2 3 False]
     \<and> compact tie 5
         [mkItem ''S'' 2 0 1 2 True, mkItem ''R'' 1 2 2 0 False, mkItem ''P'' 0 2 2 3 False]
         Vertical 12 False
       = Some [mkItem ''S'' 2 0 1 2 True, mkItem ''R'' 1 3 2 0 False, mkItem ''P'' 0 0 2 3 False]
     \<and> mkItem ''P'' 0 2 2 3 False \<noteq> mkItem ''P'' 0 0 2 3 False"
  by (intro allI) code_simp

text \<open>
  In horizontal mode a non-static item wider than the column count breaks both
  properties.  The items of this layout are at three different positions, so the sorted
  array is the same in every engine.  The overflow branch puts \<open>b\<close> at column \<open>-1\<close> of
  the next row, where it is clear of \<open>c\<close>, and the final clamp moves it onto \<open>c\<close>; the
  second pass moves it one row further.
\<close>

lemma compact_wide_item_example:
  "compact tie 5
     [mkItem ''a'' 0 0 1 1 False, mkItem ''b'' 1 0 3 1 False, mkItem ''c'' 2 1 2 1 True]
     Horizontal 2 False
   = Some [mkItem ''a'' 0 0 1 1 False, mkItem ''b'' 0 1 3 1 False, mkItem ''c'' 2 1 2 1 True]"
  "collides (mkItem ''b'' 0 1 3 1 False) (mkItem ''c'' 2 1 2 1 True)"
  "compact tie 5
     [mkItem ''a'' 0 0 1 1 False, mkItem ''b'' 0 1 3 1 False, mkItem ''c'' 2 1 2 1 True]
     Horizontal 2 False
   = Some [mkItem ''a'' 0 0 1 1 False, mkItem ''b'' 0 2 3 1 False, mkItem ''c'' 2 1 2 1 True]"
proof -
  let ?L1 = "[mkItem ''a'' 0 0 1 1 False, mkItem ''b'' 1 0 3 1 False, mkItem ''c'' 2 1 2 1 True]"
  let ?L2 = "[mkItem ''a'' 0 0 1 1 False, mkItem ''b'' 0 1 3 1 False, mkItem ''c'' 2 1 2 1 True]"
  have s1: "sortLayoutItems tie ?L1 [0..<length ?L1] Horizontal = [0, 1, 2]"
    by (simp add: sortLayoutItems_def sortLayoutItemsByColRow_def sort_cmp_def
        compareColRowTie_def compareColRow_def mkItem_def upt_rec)
  have s2: "sortLayoutItems tie ?L2 [0..<length ?L2] Horizontal = [0, 1, 2]"
    by (simp add: sortLayoutItems_def sortLayoutItemsByColRow_def sort_cmp_def
        compareColRowTie_def compareColRow_def mkItem_def upt_rec)
  have l1: "(case compact_loop 5 Horizontal 2 False [0, 1, 2] [0, 1, 2] ?L1 (getStatics ?L1)
                (replicate (length ?L1) None) of None \<Rightarrow> None | Some out' \<Rightarrow> those out')
            = Some ?L2"
    by code_simp
  have l2: "(case compact_loop 5 Horizontal 2 False [0, 1, 2] [0, 1, 2] ?L2 (getStatics ?L2)
                (replicate (length ?L2) None) of None \<Rightarrow> None | Some out' \<Rightarrow> those out')
            = Some [mkItem ''a'' 0 0 1 1 False, mkItem ''b'' 0 2 3 1 False,
                    mkItem ''c'' 2 1 2 1 True]"
    by code_simp
  show "compact tie 5 ?L1 Horizontal 2 False = Some ?L2"
    unfolding compact_def Let_def s1 by (rule l1)
  show "compact tie 5 ?L2 Horizontal 2 False
          = Some [mkItem ''a'' 0 0 1 1 False, mkItem ''b'' 0 2 3 1 False,
                  mkItem ''c'' 2 1 2 1 True]"
    unfolding compact_def Let_def s2 by (rule l2)
  show "collides (mkItem ''b'' 0 1 3 1 False) (mkItem ''c'' 2 1 2 1 True)"
    by (simp add: collides_def mkItem_def)
qed

end
